theory Spec2Isabelle
  imports Main "HOL-Library.Word"
begin

section \<open>Values, objects and the heap\<close>

text \<open>
  \<^verbatim>\<open>facsimile.js\<close> exports one function, \<^verbatim>\<open>duplicate\<close>, which copies a JavaScript
  value by dispatching on the tag that \<^verbatim>\<open>typeOf\<close> gives it. Copies are new objects, so
  the model has an explicit heap: a list of objects, an address being an index into it.
  A number carries an opaque payload (an integer stands for the double), since
  \<^verbatim>\<open>duplicate\<close> never computes with numbers.
\<close>

type_synonym addr = nat

datatype val =
    VUndefined
  | VNull
  | VBool bool
  | VNum int
  | VStr string
  | VSymbol nat
  | VRef addr

text \<open>
  A property key is a string. The keys that are array indices (canonical decimal
  numerals) are ordered numerically by the language, the others by creation, so the two
  sorts are kept apart: \<open>Idx n\<close> is the key whose text is the numeral of \<open>n\<close>, \<open>Name s\<close> a
  key that is no array index. Symbol keys are never enumerated by \<^verbatim>\<open>for-in\<close> and are left
  out.
\<close>

datatype pkey = Idx nat | Name string

datatype tarray =
  Int8 | Uint8 | Uint8Clamped | Int16 | Uint16 | Int32 | Uint32 | Float32 | Float64

datatype flavour = Plain | Async | GeneratorFn

datatype 'r settled = Pending | Fulfilled 'r | Rejected 'r

text \<open>The keys of the dispatch table (\<^verbatim>\<open>types.STRING\<close>, ...), and any other tag.\<close>

datatype tag =
    STRING | NUMBER | BOOLEAN | NULL | UNDEFINED | SYMBOL
  | FUNCTION | ERROR | REGEXP | DATE | OBJECT | ARRAY
  | MAP | WEAKMAP | SET | WEAKSET | MATH | PROMISE
  | INT8ARRAY | UINT8ARRAY | UINT8CLAMPEDARRAY | INT16ARRAY | UINT16ARRAY
  | INT32ARRAY | UINT32ARRAY | FLOAT32ARRAY | FLOAT64ARRAY
  | ARRAYBUFFER | DATAVIEW | JSON | GENERATOR | GENERATORFUNC | WASM | ASYNCFUNC
  | UNLISTED string

text \<open>
  The built-in prototype objects are not stored in the heap: they are assumed to be as
  the language defines them. \<open>Proto t\<close> is the prototype of the built-in class tagged
  \<open>t\<close> (\<open>Proto OBJECT\<close> is \<^verbatim>\<open>Object.prototype\<close>), \<open>NativeErrorProto n\<close> that of a native
  error class such as \<^verbatim>\<open>TypeError\<close>.
\<close>

datatype intrinsic = Proto tag | NativeErrorProto string

datatype proto = PNull | PObj addr | PIntrinsic intrinsic

text \<open>
  What an object is, with its internal slots. The parameter is the type of the values
  held in the slots.
\<close>

datatype 'r kind =
    KObject
  | KArray nat \<comment> \<open>\<^verbatim>\<open>length\<close>\<close>
  | KFunction flavour string bool
      \<comment> \<open>source text; whether \<^verbatim>\<open>"return " + text\<close> is a function body that compiles\<close>
  | KError string \<comment> \<open>where the call stack was captured\<close>
  | KRegExp string string \<comment> \<open>\<^verbatim>\<open>source\<close>, \<^verbatim>\<open>flags\<close>\<close>
  | KDate "int option" \<comment> \<open>time value; \<open>None\<close> is an invalid date\<close>
  | KMap "('r \<times> 'r) list"
  | KWeakMap "('r \<times> 'r) list"
  | KSet "'r list"
  | KWeakSet "'r list"
  | KMath
  | KJSON
  | KPromise "'r settled" "'r list" bool
      \<comment> \<open>state, the promises derived from it that wait for it, \<^verbatim>\<open>[[PromiseIsHandled]]\<close>\<close>
  | KTypedArray tarray "int list"
  | KArrayBuffer "8 word list"
  | KDataView 'r nat nat \<comment> \<open>\<^verbatim>\<open>buffer\<close>, \<^verbatim>\<open>byteOffset\<close>, \<^verbatim>\<open>byteLength\<close>\<close>
  | KGenerator
  | KWasm
  | KOther string \<comment> \<open>any other class of object\<close>

text \<open>
  An object has data properties only (no getters or setters), each with its value and
  its \<^verbatim>\<open>enumerable\<close> flag, listed in the order of their creation.
\<close>

record obj =
  kind :: "val kind"
  proto :: proto
  props :: "(pkey \<times> val \<times> bool) list"

type_synonym heap = "obj list"

definition lookup :: "heap \<Rightarrow> addr \<Rightarrow> obj option" where
  "lookup h a = (if a < length h then Some (h ! a) else None)"

definition alloc :: "obj \<Rightarrow> heap \<Rightarrow> addr \<times> heap" where
  "alloc ob h = (length h, h @ [ob])"

section \<open>Classification\<close>

fun tag_of_tarray :: "tarray \<Rightarrow> tag" where
  "tag_of_tarray Int8 = INT8ARRAY"
| "tag_of_tarray Uint8 = UINT8ARRAY"
| "tag_of_tarray Uint8Clamped = UINT8CLAMPEDARRAY"
| "tag_of_tarray Int16 = INT16ARRAY"
| "tag_of_tarray Uint16 = UINT16ARRAY"
| "tag_of_tarray Int32 = INT32ARRAY"
| "tag_of_tarray Uint32 = UINT32ARRAY"
| "tag_of_tarray Float32 = FLOAT32ARRAY"
| "tag_of_tarray Float64 = FLOAT64ARRAY"

fun tag_of_kind :: "'r kind \<Rightarrow> tag" where
  "tag_of_kind KObject = OBJECT"
| "tag_of_kind (KArray n) = ARRAY"
| "tag_of_kind (KFunction Plain src ok) = FUNCTION"
| "tag_of_kind (KFunction Async src ok) = ASYNCFUNC"
| "tag_of_kind (KFunction GeneratorFn src ok) = GENERATORFUNC"
| "tag_of_kind (KError st) = ERROR"
| "tag_of_kind (KRegExp src fl) = REGEXP"
| "tag_of_kind (KDate tv) = DATE"
| "tag_of_kind (KMap es) = MAP"
| "tag_of_kind (KWeakMap es) = WEAKMAP"
| "tag_of_kind (KSet xs) = SET"
| "tag_of_kind (KWeakSet xs) = WEAKSET"
| "tag_of_kind KMath = MATH"
| "tag_of_kind KJSON = JSON"
| "tag_of_kind (KPromise st rs handled) = PROMISE"
| "tag_of_kind (KTypedArray t es) = tag_of_tarray t"
| "tag_of_kind (KArrayBuffer bs) = ARRAYBUFFER"
| "tag_of_kind (KDataView b off len) = DATAVIEW"
| "tag_of_kind KGenerator = GENERATOR"
| "tag_of_kind KWasm = WASM"
| "tag_of_kind (KOther c) = UNLISTED c"

text \<open>
  Modelled from the spec: \<^verbatim>\<open>typeOf\<close> and \<^verbatim>\<open>types\<close> come from the package \<^verbatim>\<open>tupos\<close>, which is
  not part of this repository. The spec takes it as a function \<^verbatim>\<open>classify(value) -> TypeTag\<close>
  that correctly and exhaustively identifies the value's runtime category: a scalar has
  the tag of its type, an object the tag of what it is. A reference to no object cannot
  arise in a program.
\<close>

definition typeOf :: "heap \<Rightarrow> val \<Rightarrow> tag" where
  "typeOf h v =
     (case v of
        VUndefined \<Rightarrow> UNDEFINED
      | VNull \<Rightarrow> NULL
      | VBool b \<Rightarrow> BOOLEAN
      | VNum n \<Rightarrow> NUMBER
      | VStr s \<Rightarrow> STRING
      | VSymbol s \<Rightarrow> SYMBOL
      | VRef a \<Rightarrow> (case lookup h a of None \<Rightarrow> UNLISTED [] | Some ob \<Rightarrow> tag_of_kind (kind ob)))"

section \<open>Reading, enumerating and writing properties\<close>

text \<open>
  The own properties that an object has by what it is: the elements of a typed array
  (an index outside it is absent, whatever the prototype chain holds) and the \<^verbatim>\<open>length\<close>
  of an array. \<open>None\<close> leaves the key to the ordinary properties.
\<close>

fun own_slot :: "val kind \<Rightarrow> pkey \<Rightarrow> (val \<times> bool) option option" where
  "own_slot (KTypedArray t es) (Idx i) =
     Some (if i < length es then Some (VNum (es ! i), True) else None)"
| "own_slot (KArray n) (Name s) =
     (if s = ''length'' then Some (Some (VNum (int n), False)) else None)"
| "own_slot _ _ = None"

text \<open>
  The data properties of the built-in prototypes that \<^verbatim>\<open>duplicate\<close> can read:
  \<^verbatim>\<open>Error.prototype\<close> and its native subclasses hold \<^verbatim>\<open>name\<close> and \<^verbatim>\<open>message\<close>. Their other
  properties are methods, none enumerable.
\<close>

fun intrinsic_get :: "intrinsic \<Rightarrow> pkey \<Rightarrow> val" where
  "intrinsic_get (Proto t) k =
     (if t = ERROR \<and> k = Name ''name'' then VStr ''Error''
      else if t = ERROR \<and> k = Name ''message'' then VStr []
      else VUndefined)"
| "intrinsic_get (NativeErrorProto c) k =
     (if k = Name ''name'' then VStr c
      else if k = Name ''message'' then VStr []
      else VUndefined)"

text \<open>
  \<^verbatim>\<open>obj[key]\<close>: the own property, else the prototype's, up the chain. The language keeps
  prototype chains free of cycles; the walk stops at an object it has visited, which
  makes it total on every heap.
\<close>

function get_from :: "addr list \<Rightarrow> heap \<Rightarrow> proto \<Rightarrow> pkey \<Rightarrow> val" where
  "get_from vis h PNull k = VUndefined"
| "get_from vis h (PIntrinsic i) k = intrinsic_get i k"
| "get_from vis h (PObj a) k =
     (if a < length h \<and> a \<notin> set vis then
        (case own_slot (kind (h ! a)) k of
           Some r \<Rightarrow> (case r of None \<Rightarrow> VUndefined | Some (v, e) \<Rightarrow> v)
         | None \<Rightarrow>
             (case map_of (props (h ! a)) k of
                Some (v, e) \<Rightarrow> v
              | None \<Rightarrow> get_from (a # vis) h (proto (h ! a)) k))
      else VUndefined)"
  by pat_completeness auto
termination
  by (relation "measure (\<lambda>(vis, h, p, k). card ({..<length h} - set vis))")
     (auto intro!: diff_less simp: card_gt_0_iff)

definition get :: "heap \<Rightarrow> addr \<Rightarrow> pkey \<Rightarrow> val" where
  "get h a k = get_from [] h (PObj a) k"

text \<open>
  The order of an object's own keys: the array indices ascending, then the other keys
  in the order of their creation.
\<close>

fun idxs :: "pkey list \<Rightarrow> nat list" where
  "idxs [] = []"
| "idxs (Idx i # ks) = i # idxs ks"
| "idxs (Name s # ks) = idxs ks"

fun names :: "pkey list \<Rightarrow> pkey list" where
  "names [] = []"
| "names (Idx i # ks) = names ks"
| "names (Name s # ks) = Name s # names ks"

definition canon :: "pkey list \<Rightarrow> pkey list" where
  "canon ks = map Idx (sort (idxs ks)) @ names ks"

definition enum_keys :: "obj \<Rightarrow> pkey list" where
  "enum_keys ob =
     (let ks = map fst (filter (\<lambda>(k, v, e). e) (props ob)) in
      case kind ob of
        KTypedArray t es \<Rightarrow> map Idx [0..<length es] @ names ks
      | _ \<Rightarrow> canon ks)"

definition shadow_keys :: "obj \<Rightarrow> pkey list" where
  "shadow_keys ob =
     (case kind ob of
        KTypedArray t es \<Rightarrow> map Idx [0..<length es] @ names (map fst (props ob))
      | KArray n \<Rightarrow> Name ''length'' # map fst (props ob)
      | _ \<Rightarrow> map fst (props ob))"

text \<open>
  \<^verbatim>\<open>for (const key in obj)\<close>: the enumerable own keys, then those of the prototype, and so
  on up the chain; a key is visited once, and an own property hides the properties of
  that name further up even when it is not enumerable. The built-in prototypes have no
  enumerable property. The loops of \<^verbatim>\<open>duplicate\<close> never change the object they enumerate,
  so the keys are those of the object as the loop starts.
\<close>

function for_in_from :: "addr list \<Rightarrow> heap \<Rightarrow> proto \<Rightarrow> pkey list \<Rightarrow> pkey list" where
  "for_in_from vis h PNull seen = []"
| "for_in_from vis h (PIntrinsic i) seen = []"
| "for_in_from vis h (PObj a) seen =
     (if a < length h \<and> a \<notin> set vis then
        filter (\<lambda>k. k \<notin> set seen) (enum_keys (h ! a))
          @ for_in_from (a # vis) h (proto (h ! a)) (seen @ shadow_keys (h ! a))
      else [])"
  by pat_completeness auto
termination
  by (relation "measure (\<lambda>(vis, h, p, seen). card ({..<length h} - set vis))")
     (auto intro!: diff_less simp: card_gt_0_iff)

definition for_in :: "heap \<Rightarrow> addr \<Rightarrow> pkey list" where
  "for_in h a = for_in_from [] h (PObj a) []"

section \<open>Errors and results\<close>

datatype error =
    UnsupportedTypeError tag
      \<comment> \<open>\<^verbatim>\<open>_duplicate[tag]\<close> is \<^verbatim>\<open>undefined\<close> and is called: the TypeError of the dispatcher\<close>
  | NotIterable \<comment> \<open>TypeError: the argument of a collection constructor is not iterable\<close>
  | SymbolToString \<comment> \<open>TypeError: a symbol is converted to a string or a number\<close>
  | InvalidLength \<comment> \<open>RangeError: a negative buffer length\<close>
  | SyntaxError \<comment> \<open>the text given to \<^verbatim>\<open>Function\<close> does not compile\<close>
  | StackOverflow \<comment> \<open>RangeError: the call stack is exhausted\<close>
  | Unmodelled string \<comment> \<open>a step of the language that the model does not cover\<close>

text \<open>
  A call returns a value or raises, and leaves a heap behind either way.
\<close>

type_synonym 'a result = "(error + 'a) \<times> heap"

type_synonym strategy = "val \<Rightarrow> heap \<Rightarrow> val result"

fun put_prop :: "pkey \<Rightarrow> val \<Rightarrow> (pkey \<times> val \<times> bool) list \<Rightarrow> (pkey \<times> val \<times> bool) list" where
  "put_prop k v [] = [(k, v, True)]"
| "put_prop k v ((k', v', e) # ps) =
     (if k' = k then (k, v, e) # ps else (k', v', e) # put_prop k v ps)"

text \<open>
  \<^verbatim>\<open>target[key] = v\<close> in strict mode, on an object that \<^verbatim>\<open>duplicate\<close> has just created.
  The key \<^verbatim>\<open>__proto__\<close> reaches the setter that \<^verbatim>\<open>Object.prototype\<close> provides, which
  replaces the prototype when \<open>v\<close> is an object or \<^verbatim>\<open>null\<close> and does nothing otherwise.
  An index written to an array extends its length; one written to a typed array sets
  the element when it is in range and is dropped otherwise. Any other key is created as
  an enumerable own property. (After a change of prototype the following assignments
  are still taken to create own properties.)
\<close>

definition assign :: "pkey \<Rightarrow> val \<Rightarrow> obj \<Rightarrow> error + obj" where
  "assign k v ob =
     (if k = Name ''__proto__'' then
        (case v of
           VRef p \<Rightarrow> Inr (ob\<lparr>proto := PObj p\<rparr>)
         | VNull \<Rightarrow> Inr (ob\<lparr>proto := PNull\<rparr>)
         | _ \<Rightarrow> Inr ob)
      else
        (case kind ob of
           KArray n \<Rightarrow>
             (case k of
                Idx i \<Rightarrow> Inr (ob\<lparr>kind := KArray (max n (Suc i)), props := put_prop k v (props ob)\<rparr>)
              | Name s \<Rightarrow>
                  if s = ''length'' then Inl (Unmodelled ''ArraySetLength'')
                  else Inr (ob\<lparr>props := put_prop k v (props ob)\<rparr>))
         | KTypedArray t es \<Rightarrow>
             (case k of
                Idx i \<Rightarrow>
                  if i < length es then
                    (case v of
                       VNum x \<Rightarrow> Inr (ob\<lparr>kind := KTypedArray t (es[i := x])\<rparr>)
                     | _ \<Rightarrow> Inl (Unmodelled ''ToNumber''))
                  else Inr ob
              | Name s \<Rightarrow> Inr (ob\<lparr>props := put_prop k v (props ob)\<rparr>))
         | _ \<Rightarrow> Inr (ob\<lparr>props := put_prop k v (props ob)\<rparr>)))"

definition store :: "addr \<Rightarrow> pkey \<Rightarrow> val \<Rightarrow> heap \<Rightarrow> unit result" where
  "store a k v h =
     (case lookup h a of
        None \<Rightarrow> (Inl (Unmodelled ''no object''), h)
      | Some ob \<Rightarrow>
          (case assign k v ob of
             Inl e \<Rightarrow> (Inl e, h)
           | Inr ob' \<Rightarrow> (Inr (), h[a := ob'])))"

text \<open>The object a strategy is given, when it is given one.\<close>

definition kind_of :: "heap \<Rightarrow> val \<Rightarrow> val kind option" where
  "kind_of h v = (case v of VRef a \<Rightarrow> map_option kind (lookup h a) | _ \<Rightarrow> None)"

definition fresh :: "obj \<Rightarrow> heap \<Rightarrow> val result" where
  "fresh ob h = (Inr (VRef (length h)), h @ [ob])"

definition ill_typed :: "heap \<Rightarrow> val result" where
  "ill_typed h = (Inl (Unmodelled ''strategy applied to a value of another type''), h)"

section \<open>The strategies\<close>

text \<open>\<^verbatim>\<open>const identity = item => item\<close>\<close>

definition identity :: strategy where
  "identity item h = (Inr item, h)"

text \<open>
  \<^verbatim>\<open>const duplicateFunction = func => Function("return " + func)()\<close>: the text of the
  function is compiled again, which gives a new function of the same text and flavour,
  or a SyntaxError.
\<close>

definition duplicateFunction :: strategy where
  "duplicateFunction func h =
     (case kind_of h func of
        Some (KFunction fl src ok) \<Rightarrow>
          if ok then
            fresh \<lparr>kind = KFunction fl src ok,
                   proto = PIntrinsic (Proto (tag_of_kind (KFunction fl src ok :: val kind))),
                   props = []\<rparr> h
          else (Inl SyntaxError, h)
      | _ \<Rightarrow> ill_typed h)"

text \<open>Decimal digits, for the conversion of a number to a string.\<close>

fun digits :: "nat \<Rightarrow> string" where
  "digits n =
     (if n < 10 then [char_of (48 + n)] else digits (n div 10) @ [char_of (48 + n mod 10)])"

declare digits.simps [simp del]

fun to_string :: "val \<Rightarrow> error + string" where
  "to_string VUndefined = Inr ''undefined''"
| "to_string VNull = Inr ''null''"
| "to_string (VBool b) = Inr (if b then ''true'' else ''false'')"
| "to_string (VNum n) = Inr (if n < 0 then CHR ''-'' # digits (nat (- n)) else digits (nat n))"
| "to_string (VStr s) = Inr s"
| "to_string (VSymbol s) = Inl SymbolToString"
| "to_string (VRef a) = Inl (Unmodelled ''ToPrimitive'')"

text \<open>
  \<^verbatim>\<open>new Error(message)\<close>: the message, unless it is \<^verbatim>\<open>undefined\<close>, is converted to a string
  and becomes the own property \<^verbatim>\<open>message\<close>, which is not enumerable; the call stack is
  captured where the constructor is called.
\<close>

definition new_Error :: "val \<Rightarrow> string \<Rightarrow> error + obj" where
  "new_Error message site =
     (if message = VUndefined then
        Inr \<lparr>kind = KError site, proto = PIntrinsic (Proto ERROR), props = []\<rparr>
      else
        (case to_string message of
           Inl e \<Rightarrow> Inl e
         | Inr s \<Rightarrow>
             Inr \<lparr>kind = KError site, proto = PIntrinsic (Proto ERROR),
                  props = [(Name ''message'', VStr s, False)]\<rparr>))"

text \<open>
  \<^verbatim>\<open>const newErr = new Error(err.message); newErr.name = err.name; return newErr;\<close>
\<close>

definition duplicateError :: strategy where
  "duplicateError err h =
     (case err of
        VRef a \<Rightarrow>
          (case new_Error (get h a (Name ''message'')) ''duplicateError'' of
             Inl e \<Rightarrow> (Inl e, h)
           | Inr ob \<Rightarrow>
               (let newErr = length h; h1 = h @ [ob] in
                case store newErr (Name ''name'') (get h1 a (Name ''name'')) h1 of
                  (Inl e, h2) \<Rightarrow> (Inl e, h2)
                | (Inr u, h2) \<Rightarrow> (Inr (VRef newErr), h2)))
      | _ \<Rightarrow> ill_typed h)"

text \<open>
  \<^verbatim>\<open>const duplicateRegExp = regex => new RegExp(regex.source, regex.flags)\<close>. The accessors
  \<^verbatim>\<open>source\<close> and \<^verbatim>\<open>flags\<close> read the slots; a new regular expression starts with
  \<^verbatim>\<open>lastIndex\<close> 0.
\<close>

definition duplicateRegExp :: strategy where
  "duplicateRegExp regex h =
     (case kind_of h regex of
        Some (KRegExp src fl) \<Rightarrow>
          fresh \<lparr>kind = KRegExp src fl, proto = PIntrinsic (Proto REGEXP),
                 props = [(Name ''lastIndex'', VNum 0, False)]\<rparr> h
      | _ \<Rightarrow> ill_typed h)"

text \<open>\<^verbatim>\<open>const duplicateDate = dt => new Date(dt)\<close>\<close>

definition duplicateDate :: strategy where
  "duplicateDate dt h =
     (case kind_of h dt of
        Some (KDate tv) \<Rightarrow>
          fresh \<lparr>kind = KDate tv, proto = PIntrinsic (Proto DATE), props = []\<rparr> h
      | _ \<Rightarrow> ill_typed h)"

text \<open>
  The loop shared by the strategies for objects, arrays and typed arrays:
  \<^verbatim>\<open>for (const key in src) { dst[key] = _duplicate[typeOf(src[key])](src[key]); }\<close>
  with \<open>rec\<close> for the dispatch through the table.
\<close>

fun copy_keys :: "strategy \<Rightarrow> addr \<Rightarrow> addr \<Rightarrow> pkey list \<Rightarrow> heap \<Rightarrow> unit result" where
  "copy_keys rec src dst [] h = (Inr (), h)"
| "copy_keys rec src dst (k # ks) h =
     (case rec (get h src k) h of
        (Inl e, h1) \<Rightarrow> (Inl e, h1)
      | (Inr v, h1) \<Rightarrow>
          (case store dst k v h1 of
             (Inl e, h2) \<Rightarrow> (Inl e, h2)
           | (Inr u, h2) \<Rightarrow> copy_keys rec src dst ks h2))"

definition copy_into :: "strategy \<Rightarrow> addr \<Rightarrow> obj \<Rightarrow> heap \<Rightarrow> val result" where
  "copy_into rec src ret h =
     (let dst = length h; h0 = h @ [ret] in
      case copy_keys rec src dst (for_in h0 src) h0 of
        (Inl e, h1) \<Rightarrow> (Inl e, h1)
      | (Inr u, h1) \<Rightarrow> (Inr (VRef dst), h1))"

text \<open>
  \<^verbatim>\<open>const retObj = {}; for (const key in obj) { retObj[key] = ... } return retObj;\<close>
\<close>

definition duplicateObject :: "strategy \<Rightarrow> strategy" where
  "duplicateObject rec ob h =
     (case ob of
        VRef a \<Rightarrow>
          copy_into rec a \<lparr>kind = KObject, proto = PIntrinsic (Proto OBJECT), props = []\<rparr> h
      | _ \<Rightarrow> ill_typed h)"

text \<open>
  \<^verbatim>\<open>const retArr = []; for (const key in arr) { retArr[key] = ... } return retArr;\<close>
\<close>

definition duplicateArray :: "strategy \<Rightarrow> strategy" where
  "duplicateArray rec arr h =
     (case arr of
        VRef a \<Rightarrow>
          copy_into rec a \<lparr>kind = KArray 0, proto = PIntrinsic (Proto ARRAY), props = []\<rparr> h
      | _ \<Rightarrow> ill_typed h)"

text \<open>
  \<^verbatim>\<open>const duplicateMapType = constructor => map => new constructor(map)\<close>, and the same for
  sets. The constructor iterates its argument. A \<^verbatim>\<open>Map\<close> yields its entries and a \<^verbatim>\<open>Set\<close>
  its elements; a \<^verbatim>\<open>WeakMap\<close> or a \<^verbatim>\<open>WeakSet\<close> has no iterator. The keys of a map and the
  elements of a set are pairwise distinct, so adding them one by one to the new
  collection gives them back in the same order.
\<close>

datatype strength = Strong | Weak

fun entries_of :: "val kind \<Rightarrow> error + (val \<times> val) list" where
  "entries_of (KMap es) = Inr es"
| "entries_of (KWeakMap es) = Inl NotIterable"
| "entries_of (KWeakSet xs) = Inl NotIterable"
| "entries_of _ = Inl (Unmodelled ''iteration'')"

fun elements_of :: "val kind \<Rightarrow> error + val list" where
  "elements_of (KSet xs) = Inr xs"
| "elements_of (KWeakMap es) = Inl NotIterable"
| "elements_of (KWeakSet xs) = Inl NotIterable"
| "elements_of _ = Inl (Unmodelled ''iteration'')"

fun is_ref :: "val \<Rightarrow> bool" where
  "is_ref (VRef a) = True"
| "is_ref _ = False"

definition duplicateMapType :: "strength \<Rightarrow> strategy" where
  "duplicateMapType ctor mp h =
     (case kind_of h mp of
        None \<Rightarrow> ill_typed h
      | Some k \<Rightarrow>
          (case entries_of k of
             Inl e \<Rightarrow> (Inl e, h)
           | Inr es \<Rightarrow>
               (case ctor of
                  Strong \<Rightarrow> fresh \<lparr>kind = KMap es, proto = PIntrinsic (Proto MAP), props = []\<rparr> h
                | Weak \<Rightarrow>
                    if list_all (\<lambda>(x, y). is_ref x) es then
                      fresh \<lparr>kind = KWeakMap es, proto = PIntrinsic (Proto WEAKMAP), props = []\<rparr> h
                    else (Inl (Unmodelled ''weak key''), h))))"

definition duplicateSetType :: "strength \<Rightarrow> strategy" where
  "duplicateSetType ctor st h =
     (case kind_of h st of
        None \<Rightarrow> ill_typed h
      | Some k \<Rightarrow>
          (case elements_of k of
             Inl e \<Rightarrow> (Inl e, h)
           | Inr xs \<Rightarrow>
               (case ctor of
                  Strong \<Rightarrow> fresh \<lparr>kind = KSet xs, proto = PIntrinsic (Proto SET), props = []\<rparr> h
                | Weak \<Rightarrow>
                    if list_all is_ref xs then
                      fresh \<lparr>kind = KWeakSet xs, proto = PIntrinsic (Proto WEAKSET), props = []\<rparr> h
                    else (Inl (Unmodelled ''weak key''), h))))"

text \<open>
  \<^verbatim>\<open>const duplicatePromise = promise => promise.then()\<close>: a new pending promise, derived
  from the original. \<^verbatim>\<open>then\<close> marks the original as handled and, while it is pending,
  adds the new promise to those that wait for it. (For a settled original a job is
  queued instead; the job queue is outside the model.)
\<close>

definition duplicatePromise :: strategy where
  "duplicatePromise promise h =
     (case promise of
        VRef a \<Rightarrow>
          (case lookup h a of
             Some ob \<Rightarrow>
               (case kind ob of
                  KPromise st rs handled \<Rightarrow>
                    (let p = length h;
                         h1 = h @ [\<lparr>kind = KPromise Pending [] False,
                                     proto = PIntrinsic (Proto PROMISE), props = []\<rparr>];
                         rs' = (if st = Pending then rs @ [VRef p] else rs)
                     in (Inr (VRef p), h1[a := ob\<lparr>kind := KPromise st rs' True\<rparr>]))
                | _ \<Rightarrow> ill_typed h)
           | None \<Rightarrow> ill_typed h)
      | _ \<Rightarrow> ill_typed h)"

text \<open>
  \<^verbatim>\<open>const newTypedArr = new constructor(typedArr.length);
  for (const key in typedArr) { newTypedArr[key] = ... } return newTypedArr;\<close>
  The accessor \<^verbatim>\<open>length\<close> reads the slot; the new typed array is filled with zeros.
\<close>

definition duplicateTypedArray :: "tarray \<Rightarrow> strategy \<Rightarrow> strategy" where
  "duplicateTypedArray ctor rec typedArr h =
     (case typedArr of
        VRef a \<Rightarrow>
          (case kind_of h typedArr of
             Some (KTypedArray t es) \<Rightarrow>
               copy_into rec a
                 \<lparr>kind = KTypedArray ctor (replicate (length es) 0),
                  proto = PIntrinsic (Proto (tag_of_tarray ctor)), props = []\<rparr> h
           | _ \<Rightarrow> ill_typed h)
      | _ \<Rightarrow> ill_typed h)"

text \<open>
  The conversion of the argument of \<^verbatim>\<open>new ArrayBuffer(n)\<close> to a length: \<^verbatim>\<open>undefined\<close> is 0.
\<close>

fun to_index :: "val \<Rightarrow> error + nat" where
  "to_index VUndefined = Inr 0"
| "to_index VNull = Inr 0"
| "to_index (VBool b) = Inr (if b then 1 else 0)"
| "to_index (VNum n) = (if n < 0 then Inl InvalidLength else Inr (nat n))"
| "to_index (VStr s) = Inl (Unmodelled ''StringToNumber'')"
| "to_index (VSymbol s) = Inl SymbolToString"
| "to_index (VRef a) = Inl (Unmodelled ''ToPrimitive'')"

text \<open>
  \<^verbatim>\<open>const duplicateArrayBuffer = arrBuff => new ArrayBuffer(arrBuff.length)\<close>: the property
  \<^verbatim>\<open>length\<close> is looked up as any property is; the new buffer is filled with zeros.
\<close>

definition byteLength :: "val kind \<Rightarrow> nat" where
  "byteLength k = (case k of KArrayBuffer bs \<Rightarrow> length bs | _ \<Rightarrow> 0)"

definition duplicateArrayBuffer :: strategy where
  "duplicateArrayBuffer arrBuff h =
     (case arrBuff of
        VRef a \<Rightarrow>
          (case to_index (get h a (Name ''length'')) of
             Inl e \<Rightarrow> (Inl e, h)
           | Inr n \<Rightarrow>
               fresh \<lparr>kind = KArrayBuffer (replicate n 0),
                      proto = PIntrinsic (Proto ARRAYBUFFER), props = []\<rparr> h)
      | _ \<Rightarrow> ill_typed h)"

text \<open>
  \<^verbatim>\<open>const duplicateDataView = dv => new DataView(dv.buffer, dv.byteOffset, dv.byteLength)\<close>
\<close>

definition duplicateDataView :: strategy where
  "duplicateDataView dv h =
     (case kind_of h dv of
        Some (KDataView b off len) \<Rightarrow>
          fresh \<lparr>kind = KDataView b off len, proto = PIntrinsic (Proto DATAVIEW), props = []\<rparr> h
      | _ \<Rightarrow> ill_typed h)"

section \<open>The dispatch table and the dispatcher\<close>

text \<open>
  The object literal \<^verbatim>\<open>_duplicate\<close>, with \<open>rec\<close> for the dispatch through the table that
  three of its strategies make on the members of their argument.
\<close>

definition strategies :: "strategy \<Rightarrow> tag \<Rightarrow> strategy option" where
  "strategies rec t =
     (case t of
        STRING \<Rightarrow> Some identity
      | NUMBER \<Rightarrow> Some identity
      | BOOLEAN \<Rightarrow> Some identity
      | NULL \<Rightarrow> Some identity
      | UNDEFINED \<Rightarrow> Some identity
      | SYMBOL \<Rightarrow> Some identity
      | FUNCTION \<Rightarrow> Some duplicateFunction
      | ERROR \<Rightarrow> Some duplicateError
      | REGEXP \<Rightarrow> Some duplicateRegExp
      | DATE \<Rightarrow> Some duplicateDate
      | OBJECT \<Rightarrow> Some (duplicateObject rec)
      | ARRAY \<Rightarrow> Some (duplicateArray rec)
      | MAP \<Rightarrow> Some (duplicateMapType Strong)
      | WEAKMAP \<Rightarrow> Some (duplicateMapType Weak)
      | SET \<Rightarrow> Some (duplicateSetType Strong)
      | WEAKSET \<Rightarrow> Some (duplicateSetType Weak)
      | MATH \<Rightarrow> Some identity
      | PROMISE \<Rightarrow> Some duplicatePromise
      | INT8ARRAY \<Rightarrow> Some (duplicateTypedArray Int8 rec)
      | UINT8ARRAY \<Rightarrow> Some (duplicateTypedArray Uint8 rec)
      | UINT8CLAMPEDARRAY \<Rightarrow> Some (duplicateTypedArray Uint8Clamped rec)
      | INT16ARRAY \<Rightarrow> Some (duplicateTypedArray Int16 rec)
      | UINT16ARRAY \<Rightarrow> Some (duplicateTypedArray Uint16 rec)
      | INT32ARRAY \<Rightarrow> Some (duplicateTypedArray Int32 rec)
      | UINT32ARRAY \<Rightarrow> Some (duplicateTypedArray Uint32 rec)
      | FLOAT32ARRAY \<Rightarrow> Some (duplicateTypedArray Float32 rec)
      | FLOAT64ARRAY \<Rightarrow> Some (duplicateTypedArray Float64 rec)
      | ARRAYBUFFER \<Rightarrow> Some duplicateArrayBuffer
      | DATAVIEW \<Rightarrow> Some duplicateDataView
      | JSON \<Rightarrow> Some identity
      | GENERATOR \<Rightarrow> Some identity
      | GENERATORFUNC \<Rightarrow> Some duplicateFunction
      | WASM \<Rightarrow> Some identity
      | ASYNCFUNC \<Rightarrow> Some duplicateFunction
      | UNLISTED c \<Rightarrow> None)"

text \<open>
  \<^verbatim>\<open>elem => _duplicate[typeOf(elem)](elem)\<close>: calling a missing entry raises.
\<close>

definition dispatch :: "(tag \<Rightarrow> strategy option) \<Rightarrow> strategy" where
  "dispatch table elem h =
     (case table (typeOf h elem) of
        None \<Rightarrow> (Inl (UnsupportedTypeError (typeOf h elem)), h)
      | Some f \<Rightarrow> f elem h)"

text \<open>
  The table \<^verbatim>\<open>_duplicate\<close> (an identifier cannot start with an underscore here). JavaScript
  ties the knot between the table and the strategies that use it; the recursion is
  unbounded, and a cyclic argument exhausts the call stack. The number is the depth of
  nested strategy calls that the stack still has room for.
\<close>

fun duplicate_table :: "nat \<Rightarrow> tag \<Rightarrow> strategy option" where
  "duplicate_table 0 = strategies (\<lambda>v h. (Inl StackOverflow, h))"
| "duplicate_table (Suc n) = strategies (dispatch (duplicate_table n))"

text \<open>\<^verbatim>\<open>const duplicate = elem => _duplicate[typeOf(elem)](elem)\<close>\<close>

definition duplicate :: "nat \<Rightarrow> strategy" where
  "duplicate n = dispatch (duplicate_table n)"

section \<open>What a call leaves of the heap\<close>

text \<open>
  The slots of an object are the same, but for the bookkeeping of a promise: the
  promises waiting for it, which can grow, and the mark that it is handled, which can
  be set.
\<close>

fun bookkeeping :: "'r kind \<Rightarrow> ('r settled \<times> 'r list \<times> bool) option" where
  "bookkeeping (KPromise st rs handled) = Some (st, rs, handled)"
| "bookkeeping _ = None"

definition same_slots :: "val kind \<Rightarrow> val kind \<Rightarrow> bool" where
  "same_slots k k' =
     (k' = k \<or>
      (case bookkeeping k of
         None \<Rightarrow> False
       | Some (st, rs, handled) \<Rightarrow>
           (case bookkeeping k' of
              None \<Rightarrow> False
            | Some (st', rs', handled') \<Rightarrow>
                st' = st \<and> take (length rs) rs' = rs \<and> handled')))"

definition unchanged :: "obj \<Rightarrow> obj \<Rightarrow> bool" where
  "unchanged ob ob' =
     (proto ob' = proto ob \<and> props ob' = props ob \<and> same_slots (kind ob) (kind ob'))"

text \<open>
  \<open>frame h h'\<close>: every object of \<open>h\<close> is still there in \<open>h'\<close>, unchanged;
  \<open>frame_except d h h'\<close> leaves the object at \<open>d\<close> out.
\<close>

definition frame :: "heap \<Rightarrow> heap \<Rightarrow> bool" where
  "frame h h' = (length h \<le> length h' \<and> list_all2 unchanged h (take (length h) h'))"

definition frame_except :: "addr \<Rightarrow> heap \<Rightarrow> heap \<Rightarrow> bool" where
  "frame_except d h h' =
     (length h \<le> length h' \<and>
      list_all2 unchanged (h[d := h' ! d]) (take (length h) h'))"

definition framing :: "strategy \<Rightarrow> bool" where
  "framing f = (\<forall>x h. frame h (snd (f x h)))"

section \<open>Well-formed heaps\<close>

text \<open>
  What is compared of two objects and followed from an object leaves out the
  bookkeeping of a promise and the place where an error captured its stack.
\<close>

fun erase :: "'r kind \<Rightarrow> 'r kind" where
  "erase (KPromise st rs handled) = KPromise st [] False"
| "erase (KError site) = KError []"
| "erase k = k"

definition val_in :: "addr set \<Rightarrow> val \<Rightarrow> bool" where
  "val_in R v = (case v of VRef a \<Rightarrow> a \<in> R | _ \<Rightarrow> True)"

definition proto_in :: "addr set \<Rightarrow> proto \<Rightarrow> bool" where
  "proto_in R p = (case p of PObj a \<Rightarrow> a \<in> R | _ \<Rightarrow> True)"

definition obj_in :: "addr set \<Rightarrow> obj \<Rightarrow> bool" where
  "obj_in R ob =
     (proto_in R (proto ob) \<and>
      list_all (\<lambda>(k, v, e). val_in R v) (props ob) \<and>
      (\<forall>v \<in> set_kind (erase (kind ob)). val_in R v))"

text \<open>
  \<open>closed_on R h\<close>: the objects at the addresses \<open>R\<close> exist and refer to objects at
  \<open>R\<close> only.
\<close>

definition closed_on :: "addr set \<Rightarrow> heap \<Rightarrow> bool" where
  "closed_on R h = (\<forall>a \<in> R. a < length h \<and> obj_in R (h ! a))"

text \<open>
  A heap as a program can build it: every reference is to an object of the heap, and
  an object has one property of a name at most.
\<close>

definition wf_heap :: "heap \<Rightarrow> bool" where
  "wf_heap h =
     list_all (\<lambda>ob. obj_in {..<length h} ob \<and> distinct (map fst (props ob))) h"

section \<open>The outcome of the loops\<close>

text \<open>The assignments of a loop that raised nothing, one after the other.\<close>

fun assigns :: "(pkey \<times> val) list \<Rightarrow> obj \<Rightarrow> error + obj" where
  "assigns [] ob = Inr ob"
| "assigns ((k, v) # kvs) ob =
     (case assign k v ob of Inl e \<Rightarrow> Inl e | Inr ob' \<Rightarrow> assigns kvs ob')"

text \<open>
  \<open>made_by rec src dst h h' k v\<close>: between the heaps \<open>h\<close> and \<open>h'\<close>, which differ at
  \<open>dst\<close> and by allocations, \<open>rec\<close> was called on the value at the key \<open>k\<close> of \<open>src\<close> and
  returned \<open>v\<close>.
\<close>

definition made_by ::
  "strategy \<Rightarrow> addr \<Rightarrow> addr \<Rightarrow> heap \<Rightarrow> heap \<Rightarrow> pkey \<Rightarrow> val \<Rightarrow> bool" where
  "made_by rec src dst h h' k v =
     (\<exists>hi hi'. frame_except dst h hi \<and> rec (get hi src k) hi = (Inr v, hi') \<and>
               frame_except dst hi' h')"

text \<open>The length of an array after assignments to the given keys.\<close>

fun array_len :: "nat \<Rightarrow> pkey list \<Rightarrow> nat" where
  "array_len n [] = n"
| "array_len n (Idx i # ks) = array_len (max n (Suc i)) ks"
| "array_len n (Name s # ks) = array_len n ks"

definition own :: "(pkey \<times> val) \<Rightarrow> (pkey \<times> val \<times> bool)" where
  "own kv = (fst kv, snd kv, True)"

text \<open>The call that the strategies of \<open>duplicate_table n\<close> make on the members.\<close>

fun nested :: "nat \<Rightarrow> strategy" where
  "nested 0 = (\<lambda>v h. (Inl StackOverflow, h))"
| "nested (Suc n) = duplicate n"

fun is_name :: "pkey \<Rightarrow> bool" where
  "is_name (Idx i) = False"
| "is_name (Name s) = True"

text \<open>
  Two objects under construction that accept the same assignments: two plain objects,
  two arrays, or two typed arrays of the same type and length.
\<close>

fun alike_kind :: "'r kind \<Rightarrow> 'r kind \<Rightarrow> bool" where
  "alike_kind (KTypedArray t es) k =
     (case k of KTypedArray t' es' \<Rightarrow> t' = t \<and> length es' = length es | _ \<Rightarrow> False)"
| "alike_kind (KArray m) k = (case k of KArray m' \<Rightarrow> True | _ \<Rightarrow> False)"
| "alike_kind KObject k = (case k of KObject \<Rightarrow> True | _ \<Rightarrow> False)"
| "alike_kind _ k = False"

definition alike :: "obj \<Rightarrow> obj \<Rightarrow> bool" where
  "alike ob ob' = alike_kind (kind ob) (kind ob')"

text \<open>Two results of a strategy: the same value, or two references.\<close>

definition akin :: "val \<Rightarrow> val \<Rightarrow> bool" where
  "akin v v' = (v' = v \<or> is_ref v \<and> is_ref v')"

section \<open>Deep equality\<close>

text \<open>
  What can be seen of a value, to a given depth, whatever the addresses: a scalar; of
  an object, what it is and its slots, the properties that \<^verbatim>\<open>for-in\<close> enumerates (own or
  inherited; the array indices first and ascending, then the other keys as
  enumerated) and, for an error, its \<^verbatim>\<open>message\<close> and \<^verbatim>\<open>name\<close>, for a buffer its property
  \<^verbatim>\<open>length\<close>. Two values are deep-equal when they show the same to every depth.
\<close>

datatype tree =
    TLeaf val
  | TCut
  | TNode "tree kind" "(pkey \<times> tree) list" "tree list"

fun observed :: "'r kind \<Rightarrow> pkey list" where
  "observed (KError site) = [Name ''message'', Name ''name'']"
| "observed (KArrayBuffer bs) = [Name ''length'']"
| "observed _ = []"

fun snapshot :: "nat \<Rightarrow> heap \<Rightarrow> val \<Rightarrow> tree" where
  "snapshot 0 h v = (if is_ref v then TCut else TLeaf v)"
| "snapshot (Suc d) h v =
     (case v of
        VRef a \<Rightarrow>
          if a < length h then
            TNode (map_kind (snapshot d h) (erase (kind (h ! a))))
              (map (\<lambda>k. (k, snapshot d h (get h a k))) (canon (for_in h a)))
              (map (\<lambda>k. snapshot d h (get h a k)) (observed (kind (h ! a))))
          else TLeaf v
      | _ \<Rightarrow> TLeaf v)"

definition deep_equal :: "heap \<Rightarrow> val \<Rightarrow> heap \<Rightarrow> val \<Rightarrow> bool" where
  "deep_equal h v h' v' = (\<forall>d. snapshot d h v = snapshot d h' v')"

text \<open>
  What the copy of a value shows, from what the value shows. A container (object,
  array, typed array) shows the copies of its members; an array has the length that
  its index keys give it; a typed array keeps the indices it has. An error keeps its
  message, as a string, and its name, which becomes enumerable. A collection, a regular
  expression, a date, a view and a function keep their slots and lose their
  properties. A buffer gets the size that its property \<^verbatim>\<open>length\<close> gives. The copy of a promise
  is pending. The other objects are returned as they are.
\<close>

definition copied_message :: "tree \<Rightarrow> tree" where
  "copied_message t =
     (case t of
        TLeaf v \<Rightarrow>
          (if v = VUndefined then TLeaf (VStr [])
           else case to_string v of Inr s \<Rightarrow> TLeaf (VStr s) | Inl e \<Rightarrow> TCut)
      | _ \<Rightarrow> TCut)"

definition copied_size :: "tree \<Rightarrow> nat" where
  "copied_size t =
     (case t of
        TLeaf v \<Rightarrow> (case to_index v of Inr n \<Rightarrow> n | Inl e \<Rightarrow> 0)
      | _ \<Rightarrow> 0)"

fun in_range :: "nat \<Rightarrow> pkey \<Rightarrow> bool" where
  "in_range n (Idx i) = (i < n)"
| "in_range n (Name s) = True"

definition dup_node ::
  "tree kind \<Rightarrow> (pkey \<times> tree) list \<Rightarrow> tree list \<Rightarrow> (pkey \<times> tree) list \<Rightarrow> tree" where
  "dup_node kd ps obs dps =
     (case kd of
        KObject \<Rightarrow> TNode KObject dps []
      | KArray n \<Rightarrow> TNode (KArray (array_len 0 (map fst ps))) dps []
      | KTypedArray t es \<Rightarrow>
          TNode (KTypedArray t es) (filter (\<lambda>(k, c). in_range (length es) k) dps) []
      | KError site \<Rightarrow>
          TNode (KError []) [(Name ''name'', obs ! 1)] [copied_message (obs ! 0), obs ! 1]
      | KFunction fl src ok \<Rightarrow> TNode kd [] []
      | KRegExp src fl \<Rightarrow> TNode kd [] []
      | KDate tv \<Rightarrow> TNode kd [] []
      | KMap es \<Rightarrow> TNode kd [] []
      | KSet xs \<Rightarrow> TNode kd [] []
      | KDataView b off len \<Rightarrow> TNode kd [] []
      | KPromise st rs handled \<Rightarrow> TNode (KPromise Pending [] False) [] []
      | KArrayBuffer bs \<Rightarrow>
          TNode (KArrayBuffer (replicate (copied_size (obs ! 0)) 0)) [] [TLeaf VUndefined]
      | _ \<Rightarrow> TNode kd ps obs)"

primrec dup_tree :: "tree \<Rightarrow> tree" where
  "dup_tree (TLeaf v) = TLeaf v"
| "dup_tree TCut = TCut"
| "dup_tree (TNode kd ps obs) = dup_node kd ps obs (map (map_prod id dup_tree) ps)"

text \<open>
  The containers that a copy goes through enumerate no key \<^verbatim>\<open>__proto__\<close>.
\<close>

fun is_container :: "'r kind \<Rightarrow> bool" where
  "is_container KObject = True"
| "is_container (KArray n) = True"
| "is_container (KTypedArray t es) = True"
| "is_container _ = False"

primrec no_proto_key :: "tree \<Rightarrow> bool" where
  "no_proto_key (TLeaf v) = True"
| "no_proto_key TCut = True"
| "no_proto_key (TNode kd ps obs) =
     (\<not> is_container kd \<or>
      (Name ''__proto__'' \<notin> set (map fst ps) \<and>
       list_all snd (map (map_prod id no_proto_key) ps)))"

text \<open>
  \<open>copies_to hb h x r h'\<close>: called in the heap \<open>h\<close>, which frames \<open>hb\<close>, on the value \<open>x\<close> of
  \<open>hb\<close>, a strategy returned \<open>r\<close> and the heap \<open>h'\<close>, where \<open>r\<close> shows what the copy of \<open>x\<close>
  should, and is made of objects of \<open>hb\<close> and of objects allocated by the call.
\<close>

definition copies_to :: "heap \<Rightarrow> heap \<Rightarrow> val \<Rightarrow> val \<Rightarrow> heap \<Rightarrow> bool" where
  "copies_to hb h x r h' =
     ((\<exists>R. {..<length hb} \<subseteq> R \<and> R \<subseteq> {..<length hb} \<union> {length h..<length h'} \<and>
           closed_on R h' \<and> val_in R r) \<and>
      (\<forall>d. snapshot d h' r = dup_tree (snapshot d hb x)))"

definition contract :: "heap \<Rightarrow> nat \<Rightarrow> strategy \<Rightarrow> bool" where
  "contract hb d f =
     (\<forall>x h r h'. frame hb h \<longrightarrow> val_in {..<length hb} x \<longrightarrow> no_proto_key (snapshot d hb x) \<longrightarrow>
          f x h = (Inr r, h') \<longrightarrow> copies_to hb h x r h')"

text \<open>
  Plain data: scalars, and plain objects and arrays of plain data, an array having no
  hole at its end (its length is what its index keys give) and, as the arrays of
  JavaScript, no enumerable key \<^verbatim>\<open>length\<close>.
\<close>

definition plain_node :: "tree kind \<Rightarrow> pkey list \<Rightarrow> tree list \<Rightarrow> bool" where
  "plain_node kd ks obs =
     (obs = [] \<and> Name ''__proto__'' \<notin> set ks \<and>
      (case kd of
         KObject \<Rightarrow> True
       | KArray n \<Rightarrow> n = array_len 0 ks \<and> Name ''length'' \<notin> set ks
       | _ \<Rightarrow> False))"

primrec plain :: "tree \<Rightarrow> bool" where
  "plain (TLeaf v) = True"
| "plain TCut = True"
| "plain (TNode kd ps obs) =
     (plain_node kd (map fst ps) obs \<and> list_all snd (map (map_prod id plain) ps))"

definition plain_data :: "heap \<Rightarrow> val \<Rightarrow> bool" where
  "plain_data h v = (\<forall>d. plain (snapshot d h v))"

text \<open>A snapshot that reaches the end of every member: nothing is cut off.\<close>

primrec complete :: "tree \<Rightarrow> bool" where
  "complete (TLeaf v) = True"
| "complete TCut = False"
| "complete (TNode kd ps obs) = list_all snd (map (map_prod id complete) ps)"

text \<open>The tags whose strategy returns its argument.\<close>

definition returned_tags :: "tag set" where
  "returned_tags = {STRING, NUMBER, BOOLEAN, NULL, UNDEFINED, SYMBOL, MATH, JSON, GENERATOR, WASM}"

section \<open>Example heaps\<close>

text \<open>
  \<^verbatim>\<open>const e = new TypeError("boom"); e.code = 42;\<close>
\<close>

definition error_heap :: heap where
  "error_heap =
     [\<lparr>kind = KError ''main'', proto = PIntrinsic (NativeErrorProto ''TypeError''),
       props = [(Name ''message'', VStr ''boom'', False), (Name ''code'', VNum 42, True)]\<rparr>]"

text \<open>
  \<^verbatim>\<open>const o = JSON.parse('{"__proto__": {"a": 1}}');\<close>
\<close>

definition proto_key_heap :: heap where
  "proto_key_heap =
     [\<lparr>kind = KObject, proto = PIntrinsic (Proto OBJECT),
       props = [(Name ''__proto__'', VRef 1, True)]\<rparr>,
      \<lparr>kind = KObject, proto = PIntrinsic (Proto OBJECT),
       props = [(Name ''a'', VNum 1, True)]\<rparr>]"

text \<open>
  \<^verbatim>\<open>const o = Object.create({b: {c: 2}}); o.a = 1;\<close>
\<close>

definition inherited_heap :: heap where
  "inherited_heap =
     [\<lparr>kind = KObject, proto = PObj 1, props = [(Name ''a'', VNum 1, True)]\<rparr>,
      \<lparr>kind = KObject, proto = PIntrinsic (Proto OBJECT),
       props = [(Name ''b'', VRef 2, True)]\<rparr>,
      \<lparr>kind = KObject, proto = PIntrinsic (Proto OBJECT),
       props = [(Name ''c'', VNum 2, True)]\<rparr>]"

text \<open>
  \<^verbatim>\<open>const v1 = {}; const k1 = new Set([v1]); const m = new Map([[k1, v1]]);\<close>
\<close>

definition map_heap :: heap where
  "map_heap =
     [\<lparr>kind = KSet [VRef 1], proto = PIntrinsic (Proto SET), props = []\<rparr>,
      \<lparr>kind = KObject, proto = PIntrinsic (Proto OBJECT), props = []\<rparr>,
      \<lparr>kind = KMap [(VRef 0, VRef 1)], proto = PIntrinsic (Proto MAP), props = []\<rparr>]"

text \<open>
  \<^verbatim>\<open>const o = Object.create({1: 10}); o.a = 20;\<close>
\<close>

definition inherited_index_heap :: heap where
  "inherited_index_heap =
     [\<lparr>kind = KObject, proto = PObj 1, props = [(Name ''a'', VNum 20, True)]\<rparr>,
      \<lparr>kind = KObject, proto = PIntrinsic (Proto OBJECT),
       props = [(Idx 1, VNum 10, True)]\<rparr>]"

text \<open>
  \<^verbatim>\<open>const o = {a: 1, b: {c: 2}};\<close>
\<close>

definition nested_heap :: heap where
  "nested_heap =
     [\<lparr>kind = KObject, proto = PIntrinsic (Proto OBJECT),
       props = [(Name ''a'', VNum 1, True), (Name ''b'', VRef 1, True)]\<rparr>,
      \<lparr>kind = KObject, proto = PIntrinsic (Proto OBJECT),
       props = [(Name ''c'', VNum 2, True)]\<rparr>]"

text \<open>
  \<^verbatim>\<open>const arr = [1, [2, 3]];\<close>
\<close>

definition array_heap :: heap where
  "array_heap =
     [\<lparr>kind = KArray 2, proto = PIntrinsic (Proto ARRAY),
       props = [(Idx 0, VNum 1, True), (Idx 1, VRef 1, True)]\<rparr>,
      \<lparr>kind = KArray 2, proto = PIntrinsic (Proto ARRAY),
       props = [(Idx 0, VNum 2, True), (Idx 1, VNum 3, True)]\<rparr>]"

text \<open>
  \<^verbatim>\<open>const arr = [7]; arr.length = 3;\<close>
\<close>

definition hole_heap :: heap where
  "hole_heap =
     [\<lparr>kind = KArray 3, proto = PIntrinsic (Proto ARRAY), props = [(Idx 0, VNum 7, True)]\<rparr>]"

text \<open>
  \<^verbatim>\<open>const p = new Promise(() => {});\<close>
\<close>

definition promise_heap :: heap where
  "promise_heap =
     [\<lparr>kind = KPromise Pending [] False, proto = PIntrinsic (Proto PROMISE), props = []\<rparr>]"

section \<open>The dispatcher\<close>

lemmas run_defs =
  duplicate_def dispatch_def typeOf_def lookup_def strategies_def identity_def
  kind_of_def fresh_def ill_typed_def store_def assign_def copy_into_def
  duplicateObject_def duplicateArray_def duplicateTypedArray_def duplicateError_def
  duplicateFunction_def duplicateRegExp_def duplicateDate_def duplicateMapType_def
  duplicateSetType_def duplicatePromise_def duplicateArrayBuffer_def duplicateDataView_def
  new_Error_def get_def for_in_def enum_keys_def shadow_keys_def canon_def

lemma table_None: "duplicate_table n t = None \<longleftrightarrow> (\<exists>c. t = UNLISTED c)"
  by (cases n; cases t) (simp_all add: strategies_def)

lemma table_identity:
  "t \<in> {STRING, NUMBER, BOOLEAN, NULL, UNDEFINED, SYMBOL, MATH, JSON, GENERATOR, WASM}
   \<Longrightarrow> duplicate_table n t = Some identity"
  by (cases n) (auto simp: strategies_def)

text \<open>
  C3. A scalar (a string, a number, a boolean, \<^verbatim>\<open>null\<close>, \<^verbatim>\<open>undefined\<close> or a symbol) is
  returned as it is: whatever room the stack has, \<^verbatim>\<open>duplicate\<close> returns the very value,
  raises nothing and allocates nothing.
\<close>

theorem scalar_identity: "\<not> is_ref x \<Longrightarrow> duplicate n x h = (Inr x, h)"
  by (cases x) (simp_all add: duplicate_def dispatch_def typeOf_def table_identity identity_def)

theorem scalar_identity_witness:
  "\<not> is_ref (VStr ''abc'') \<and> duplicate 0 (VStr ''abc'') [] = (Inr (VStr ''abc''), [])"
  using scalar_identity [of "VStr ''abc''" 0 "[]"] by simp



section \<open>The strategies that do not recurse\<close>

text \<open>
  C5. The copy of a \<^verbatim>\<open>Map\<close> or of a \<^verbatim>\<open>Set\<close> is one new object, at an address the heap did
  not have, of the same family, holding the very entries (elements) of the original:
  the same values, references included, none of them duplicated. Nothing else is
  allocated and the heap is otherwise as it was.
\<close>

theorem strong_collection_shallow:
  assumes "lookup h a = Some ob"
  shows "(kind ob = KMap es \<longrightarrow>
            duplicate n (VRef a) h =
              (Inr (VRef (length h)),
               h @ [\<lparr>kind = KMap es, proto = PIntrinsic (Proto MAP), props = []\<rparr>])) \<and>
         (kind ob = KSet xs \<longrightarrow>
            duplicate n (VRef a) h =
              (Inr (VRef (length h)),
               h @ [\<lparr>kind = KSet xs, proto = PIntrinsic (Proto SET), props = []\<rparr>])) \<and>
         VRef (length h) \<noteq> VRef a"
  using assms
  by (cases n) (auto simp: run_defs split: if_splits)

theorem strong_collection_shallow_witness:
  "lookup map_heap 2 = Some (map_heap ! 2) \<and> kind (map_heap ! 2) = KMap [(VRef 0, VRef 1)] \<and>
   duplicate 0 (VRef 2) map_heap =
     (Inr (VRef 3),
      map_heap @ [\<lparr>kind = KMap [(VRef 0, VRef 1)], proto = PIntrinsic (Proto MAP), props = []\<rparr>]) \<and>
   lookup map_heap 0 = Some (map_heap ! 0) \<and> kind (map_heap ! 0) = KSet [VRef 1] \<and>
   duplicate 0 (VRef 0) map_heap =
     (Inr (VRef 3),
      map_heap @ [\<lparr>kind = KSet [VRef 1], proto = PIntrinsic (Proto SET), props = []\<rparr>])"
proof -
  have h: "lookup map_heap 2 = Some (map_heap ! 2)" "lookup map_heap 0 = Some (map_heap ! 0)"
    by (simp_all add: map_heap_def lookup_def)
  have k: "kind (map_heap ! 2) = KMap [(VRef 0, VRef 1)]" "kind (map_heap ! 0) = KSet [VRef 1]"
    "length map_heap = 3"
    by (simp_all add: map_heap_def)
  from strong_collection_shallow [OF h(1), of "[(VRef 0, VRef 1)]" 0 "[]"]
    strong_collection_shallow [OF h(2), of "[]" 0 "[VRef 1]"] h k
  show ?thesis by simp
qed

text \<open>
  C7. A buffer of eight bytes, as \<^verbatim>\<open>new ArrayBuffer(8)\<close> makes it: the strategy reads its
  property \<^verbatim>\<open>length\<close>, which a buffer does not have, and the copy is a buffer of no
  bytes.
\<close>

theorem array_buffer_copy_is_empty:
  "duplicate n (VRef 0)
     [\<lparr>kind = KArrayBuffer [0, 0, 0, 0, 0, 0, 0, 0],
       proto = PIntrinsic (Proto ARRAYBUFFER), props = []\<rparr>]
   = (Inr (VRef 1),
      [\<lparr>kind = KArrayBuffer [0, 0, 0, 0, 0, 0, 0, 0],
        proto = PIntrinsic (Proto ARRAYBUFFER), props = []\<rparr>,
       \<lparr>kind = KArrayBuffer [], proto = PIntrinsic (Proto ARRAYBUFFER), props = []\<rparr>]) \<and>
   byteLength (KArrayBuffer [0, 0, 0, 0, 0, 0, 0, 0]) = 8 \<and>
   byteLength (KArrayBuffer []) = 0"
  by (cases n) (simp_all add: run_defs byteLength_def)

text \<open>
  C6. A \<^verbatim>\<open>WeakMap\<close> has a strategy in the table, which gives it to \<^verbatim>\<open>new WeakMap\<close>; a
  \<^verbatim>\<open>WeakMap\<close> cannot be iterated, and the call raises: there is no copy to duplicate
  again.
\<close>

theorem weak_map_copy_raises:
  "duplicate n (VRef 0) [\<lparr>kind = KWeakMap [], proto = PIntrinsic (Proto WEAKMAP), props = []\<rparr>]
   = (Inl NotIterable, [\<lparr>kind = KWeakMap [], proto = PIntrinsic (Proto WEAKMAP), props = []\<rparr>])"
  by (cases n) (simp_all add: run_defs)

section \<open>Every call frames the heap\<close>

lemma bookkeeping_Some [simp]:
  "bookkeeping k = Some (st, rs, hdl) \<longleftrightarrow> k = KPromise st rs hdl"
  by (cases k) auto

lemma bookkeeping_None: "bookkeeping k = None \<longleftrightarrow> (\<forall>st rs hdl. k \<noteq> KPromise st rs hdl)"
  by (cases k) auto

lemma same_slots_refl [simp]: "same_slots k k"
  by (simp add: same_slots_def)

lemma same_slots_cases:
  "same_slots k k' \<longleftrightarrow>
     k' = k \<or> (\<exists>st rs hdl rs'. k = KPromise st rs hdl \<and> k' = KPromise st (rs @ rs') True)"
proof -
  have *: "take (length rs) rs' = rs \<longleftrightarrow> (\<exists>xs. rs' = rs @ xs)" for rs rs' :: "val list"
    by (metis append_eq_conv_conj append_take_drop_id)
  show ?thesis
    unfolding same_slots_def by (auto simp: * split: option.splits)
qed

lemma same_slots_trans: "same_slots k k' \<Longrightarrow> same_slots k' k'' \<Longrightarrow> same_slots k k''"
  unfolding same_slots_cases by auto

lemma unchanged_refl [simp]: "unchanged ob ob"
  by (simp add: unchanged_def)

lemma unchanged_trans: "unchanged a b \<Longrightarrow> unchanged b c \<Longrightarrow> unchanged a c"
  by (auto simp: unchanged_def intro: same_slots_trans)

lemma frame_iff:
  "frame h h' \<longleftrightarrow> length h \<le> length h' \<and> (\<forall>a<length h. unchanged (h ! a) (h' ! a))"
  by (auto simp: frame_def list_all2_conv_all_nth)

lemma frame_except_iff:
  "frame_except d h h' \<longleftrightarrow>
     length h \<le> length h' \<and> (\<forall>a<length h. a \<noteq> d \<longrightarrow> unchanged (h ! a) (h' ! a))"
proof -
  have "(\<forall>i<length h. unchanged (h[d := h' ! d] ! i) (h' ! i)) \<longleftrightarrow>
        (\<forall>a<length h. a \<noteq> d \<longrightarrow> unchanged (h ! a) (h' ! a))"
    by (rule all_cong1) (metis nth_list_update_eq nth_list_update_neq unchanged_refl)
  then show ?thesis
    by (auto simp: frame_except_def list_all2_conv_all_nth)
qed

lemma frame_refl [simp]: "frame h h"
  by (simp add: frame_iff)

lemma frame_trans: "frame h h' \<Longrightarrow> frame h' h'' \<Longrightarrow> frame h h''"
  unfolding frame_iff by (meson unchanged_trans le_trans less_le_trans)

lemma frame_append [simp]: "frame h (h @ xs)"
  by (simp add: frame_iff nth_append)

lemma frame_imp_except: "frame h h' \<Longrightarrow> frame_except d h h'"
  by (simp add: frame_iff frame_except_iff)

lemma frame_except_trans:
  "frame_except d h h' \<Longrightarrow> frame_except d h' h'' \<Longrightarrow> frame_except d h h''"
  unfolding frame_except_iff by (meson unchanged_trans le_trans less_le_trans)

lemma frame_except_new: "frame_except (length h) (h @ [ob]) h' \<Longrightarrow> frame h h'"
  by (auto simp: frame_iff frame_except_iff nth_append)


lemma framingI: "(\<And>x h. frame h (snd (f x h))) \<Longrightarrow> framing f"
  by (simp add: framing_def)

lemma framingD: "framing f \<Longrightarrow> f x h = (r, h') \<Longrightarrow> frame h h'"
  by (metis framing_def snd_conv)

lemma store_frame_except: "store d k v h = (r, h') \<Longrightarrow> frame_except d h h'"
  by (auto simp: store_def lookup_def frame_except_iff split: sum.splits if_splits)

lemma fresh_frame: "fresh ob h = (r, h') \<Longrightarrow> frame h h'"
  by (auto simp: fresh_def)

lemma ill_typed_frame: "ill_typed h = (r, h') \<Longrightarrow> frame h h'"
  by (auto simp: ill_typed_def)

lemma framing_identity: "framing identity"
  by (simp add: framing_def identity_def)

lemma framing_duplicateFunction: "framing duplicateFunction"
  by (auto simp: framing_def duplicateFunction_def fresh_def ill_typed_def
      split: option.splits kind.splits)

lemma framing_duplicateRegExp: "framing duplicateRegExp"
  by (auto simp: framing_def duplicateRegExp_def fresh_def ill_typed_def
      split: option.splits kind.splits)

lemma framing_duplicateDate: "framing duplicateDate"
  by (auto simp: framing_def duplicateDate_def fresh_def ill_typed_def
      split: option.splits kind.splits)

lemma framing_duplicateDataView: "framing duplicateDataView"
  by (auto simp: framing_def duplicateDataView_def fresh_def ill_typed_def
      split: option.splits kind.splits)

lemma framing_duplicateArrayBuffer: "framing duplicateArrayBuffer"
  by (auto simp: framing_def duplicateArrayBuffer_def fresh_def ill_typed_def
      split: val.splits sum.splits)

lemma framing_duplicateMapType: "framing (duplicateMapType c)"
  by (auto simp: framing_def duplicateMapType_def fresh_def ill_typed_def
      split: option.splits sum.splits strength.splits)

lemma framing_duplicateSetType: "framing (duplicateSetType c)"
  by (auto simp: framing_def duplicateSetType_def fresh_def ill_typed_def
      split: option.splits sum.splits strength.splits)

lemma framing_duplicateError: "framing duplicateError"
proof (rule framingI)
  fix x h
  show "frame h (snd (duplicateError x h))"
  proof (cases x)
    case (VRef a)
    show ?thesis
    proof (cases "new_Error (get h a (Name ''message'')) ''duplicateError''")
      case (Inl e)
      with VRef show ?thesis by (simp add: duplicateError_def)
    next
      case (Inr ob)
      obtain r h2 where st: "store (length h) (Name ''name'') (get (h @ [ob]) a (Name ''name'')) (h @ [ob]) = (r, h2)"
        by (cases "store (length h) (Name ''name'') (get (h @ [ob]) a (Name ''name'')) (h @ [ob])")
      from store_frame_except [OF st] have "frame h h2" by (rule frame_except_new)
      with VRef Inr st show ?thesis
        by (cases r) (simp_all add: duplicateError_def Let_def)
    qed
  qed (simp_all add: duplicateError_def ill_typed_def)
qed

lemma framing_duplicatePromise: "framing duplicatePromise"
proof (rule framingI)
  fix x h
  show "frame h (snd (duplicatePromise x h))"
  proof (cases x)
    case (VRef a)
    show ?thesis
    proof (cases "a < length h")
      case True
      show ?thesis
      proof (cases "bookkeeping (kind (h ! a))")
        case None
        then show ?thesis using VRef True
          by (cases "kind (h ! a)") (simp_all add: duplicatePromise_def lookup_def ill_typed_def)
      next
        case (Some t)
        then obtain st rs hdl where k: "kind (h ! a) = KPromise st rs hdl"
          by (cases t) auto
        have "unchanged (h ! a) ((h ! a)\<lparr>kind := KPromise st (if st = Pending then rs @ [VRef (length h)] else rs) True\<rparr>)"
          using k by (auto simp: unchanged_def same_slots_cases)
        then show ?thesis using VRef True k
          by (auto simp: duplicatePromise_def lookup_def Let_def frame_iff nth_append nth_list_update)
      qed
    next
      case False
      with VRef show ?thesis by (simp add: duplicatePromise_def lookup_def ill_typed_def)
    qed
  qed (simp_all add: duplicatePromise_def ill_typed_def)
qed

lemma copy_keys_frame:
  assumes "framing rec"
  shows "copy_keys rec src dst ks h = (r, h') \<Longrightarrow> frame_except dst h h'"
proof (induction ks arbitrary: h)
  case Nil
  then show ?case by (auto simp: frame_except_iff)
next
  case (Cons k ks)
  obtain r1 h1 where rec: "rec (get h src k) h = (r1, h1)" by (cases "rec (get h src k) h")
  have f1: "frame_except dst h h1" using framingD [OF assms rec] by (rule frame_imp_except)
  show ?case
  proof (cases r1)
    case (Inl e)
    with Cons.prems rec f1 show ?thesis by simp
  next
    case (Inr v)
    obtain r2 h2 where st: "store dst k v h1 = (r2, h2)" by (cases "store dst k v h1")
    have f2: "frame_except dst h h2"
      using f1 store_frame_except [OF st] by (rule frame_except_trans)
    show ?thesis
    proof (cases r2)
      case (Inl e)
      with Cons.prems rec Inr st f2 show ?thesis by simp
    next
      case (Inr u)
      with Cons.prems rec \<open>r1 = Inr v\<close> st have "copy_keys rec src dst ks h2 = (r, h')" by simp
      from Cons.IH [OF this] f2 show ?thesis by (rule frame_except_trans [rotated])
    qed
  qed
qed

lemma copy_into_frame:
  assumes "framing rec"
  shows "copy_into rec src ret h = (r, h') \<Longrightarrow> frame h h'"
proof -
  assume a: "copy_into rec src ret h = (r, h')"
  obtain r1 h1 where ck: "copy_keys rec src (length h) (for_in (h @ [ret]) src) (h @ [ret]) = (r1, h1)"
    by (cases "copy_keys rec src (length h) (for_in (h @ [ret]) src) (h @ [ret])")
  from copy_keys_frame [OF assms ck] have "frame h h1" by (rule frame_except_new)
  moreover from a ck have "h' = h1" by (cases r1) (simp_all add: copy_into_def Let_def)
  ultimately show ?thesis by simp
qed

lemma framing_duplicateObject: "framing rec \<Longrightarrow> framing (duplicateObject rec)"
  apply (rule framingI)
  subgoal for x h
    by (cases x; cases "duplicateObject rec x h")
       (auto simp: duplicateObject_def ill_typed_def dest: copy_into_frame)
  done

lemma framing_duplicateArray: "framing rec \<Longrightarrow> framing (duplicateArray rec)"
  apply (rule framingI)
  subgoal for x h
    by (cases x; cases "duplicateArray rec x h")
       (auto simp: duplicateArray_def ill_typed_def dest: copy_into_frame)
  done

lemma framing_duplicateTypedArray: "framing rec \<Longrightarrow> framing (duplicateTypedArray c rec)"
  apply (rule framingI)
  subgoal for x h
    by (cases x; cases "duplicateTypedArray c rec x h")
       (auto simp: duplicateTypedArray_def ill_typed_def dest: copy_into_frame
          split: option.splits kind.splits)
  done

lemmas framing_strategies =
  framing_identity framing_duplicateFunction framing_duplicateRegExp framing_duplicateDate
  framing_duplicateDataView framing_duplicateArrayBuffer framing_duplicateMapType
  framing_duplicateSetType framing_duplicateError framing_duplicatePromise
  framing_duplicateObject framing_duplicateArray framing_duplicateTypedArray

lemma framing_table:
  "framing rec \<Longrightarrow> strategies rec t = Some f \<Longrightarrow> framing f"
  by (cases t) (auto simp: strategies_def framing_strategies)

lemma framing_dispatch:
  assumes "\<And>t f. table t = Some f \<Longrightarrow> framing f"
  shows "framing (dispatch table)"
proof (rule framingI)
  fix x h
  show "frame h (snd (dispatch table x h))"
  proof (cases "table (typeOf h x)")
    case None
    then show ?thesis by (simp add: dispatch_def)
  next
    case (Some f)
    with assms [OF Some] show ?thesis by (simp add: dispatch_def framing_def)
  qed
qed

lemma framing_duplicate: "framing (duplicate n)"
proof (induction n)
  case 0
  have "framing (\<lambda>v h. (Inl StackOverflow, h))" by (simp add: framing_def)
  then show ?case
    unfolding duplicate_def by (intro framing_dispatch) (auto dest: framing_table)
next
  case (Suc n)
  then show ?case
    unfolding duplicate_def by (intro framing_dispatch) (auto dest: framing_table)
qed

section \<open>Reading a framed heap\<close>

lemma wf_heap_closed: "wf_heap h \<Longrightarrow> closed_on {..<length h} h"
  by (auto simp: wf_heap_def closed_on_def list_all_length)

lemma wf_heap_distinct: "wf_heap h \<Longrightarrow> a < length h \<Longrightarrow> distinct (map fst (props (h ! a)))"
  by (auto simp: wf_heap_def list_all_length)

lemma own_slot_same_slots: "same_slots k k' \<Longrightarrow> own_slot k' key = own_slot k key"
  by (auto simp: same_slots_cases)

lemma erase_same_slots: "same_slots k k' \<Longrightarrow> erase k' = erase k"
  by (auto simp: same_slots_cases)

lemma tag_same_slots: "same_slots k k' \<Longrightarrow> tag_of_kind k' = tag_of_kind k"
  by (auto simp: same_slots_cases)

lemma enum_keys_unchanged: "unchanged ob ob' \<Longrightarrow> enum_keys ob' = enum_keys ob"
  by (cases "kind ob") (auto simp: unchanged_def same_slots_cases enum_keys_def)

lemma shadow_keys_unchanged: "unchanged ob ob' \<Longrightarrow> shadow_keys ob' = shadow_keys ob"
  by (cases "kind ob") (auto simp: unchanged_def same_slots_cases shadow_keys_def)

lemma obj_in_unchanged: "unchanged ob ob' \<Longrightarrow> obj_in R ob' = obj_in R ob"
  by (auto simp: unchanged_def obj_in_def dest: erase_same_slots)

text \<open>Reading and enumerating give the same in a heap that keeps the objects read.\<close>

lemma get_from_stable:
  assumes "closed_on R h" "\<forall>a\<in>R. unchanged (h ! a) (h' ! a)" "length h \<le> length h'"
  shows "proto_in R p \<Longrightarrow> get_from vis h' p k = get_from vis h p k"
  using assms
proof (induction vis h p k rule: get_from.induct)
  case (3 vis h a k)
  from "3.prems" have aR: "a \<in> R" by (simp add: proto_in_def)
  with "3.prems" have lt: "a < length h" "a < length h'" and ob: "obj_in R (h ! a)"
    and un: "unchanged (h ! a) (h' ! a)"
    by (auto simp: closed_on_def)
  from un have eqs: "props (h' ! a) = props (h ! a)" "proto (h' ! a) = proto (h ! a)"
    "own_slot (kind (h' ! a)) k = own_slot (kind (h ! a)) k"
    by (auto simp: unchanged_def own_slot_same_slots)
  show ?case
  proof (cases "a \<in> set vis")
    case True
    then show ?thesis by simp
  next
    case False
    show ?thesis
    proof (cases "own_slot (kind (h ! a)) k")
      case (Some r)
      with lt eqs False show ?thesis by simp
    next
      case None
      show ?thesis
      proof (cases "map_of (props (h ! a)) k")
        case (Some r)
        with lt eqs False None show ?thesis by simp
      next
        case N2: None
        have "get_from (a # vis) h' (proto (h ! a)) k = get_from (a # vis) h (proto (h ! a)) k"
          using "3.IH" [OF _ None N2] lt False ob "3.prems" by (simp add: obj_in_def)
        with lt eqs False None N2 show ?thesis by simp
      qed
    qed
  qed
qed simp_all

lemma for_in_from_stable:
  assumes "closed_on R h" "\<forall>a\<in>R. unchanged (h ! a) (h' ! a)" "length h \<le> length h'"
  shows "proto_in R p \<Longrightarrow> for_in_from vis h' p seen = for_in_from vis h p seen"
  using assms
proof (induction vis h p seen rule: for_in_from.induct)
  case (3 vis h a seen)
  from "3.prems" have aR: "a \<in> R" by (simp add: proto_in_def)
  with "3.prems" have lt: "a < length h" "a < length h'" and ob: "obj_in R (h ! a)"
    and un: "unchanged (h ! a) (h' ! a)"
    by (auto simp: closed_on_def)
  from un have eqs: "proto (h' ! a) = proto (h ! a)"
    "enum_keys (h' ! a) = enum_keys (h ! a)" "shadow_keys (h' ! a) = shadow_keys (h ! a)"
    by (auto simp: unchanged_def enum_keys_unchanged shadow_keys_unchanged)
  show ?case
  proof (cases "a \<in> set vis")
    case True
    then show ?thesis by simp
  next
    case False
    have "for_in_from (a # vis) h' (proto (h ! a)) (seen @ shadow_keys (h ! a))
        = for_in_from (a # vis) h (proto (h ! a)) (seen @ shadow_keys (h ! a))"
      using "3.IH" lt False ob "3.prems" by (simp add: obj_in_def)
    with lt eqs False show ?thesis by simp
  qed
qed simp_all

lemma get_stable:
  "closed_on R h \<Longrightarrow> \<forall>a\<in>R. unchanged (h ! a) (h' ! a) \<Longrightarrow> length h \<le> length h'
   \<Longrightarrow> a \<in> R \<Longrightarrow> get h' a k = get h a k"
  unfolding get_def by (rule get_from_stable) (auto simp: proto_in_def)

lemma for_in_stable:
  "closed_on R h \<Longrightarrow> \<forall>a\<in>R. unchanged (h ! a) (h' ! a) \<Longrightarrow> length h \<le> length h'
   \<Longrightarrow> a \<in> R \<Longrightarrow> for_in h' a = for_in h a"
  unfolding for_in_def by (rule for_in_from_stable) (auto simp: proto_in_def)

lemma get_frame:
  "wf_heap h \<Longrightarrow> frame h h' \<Longrightarrow> a < length h \<Longrightarrow> get h' a k = get h a k"
  by (rule get_stable [where R = "{..<length h}"]) (auto simp: wf_heap_closed frame_iff)

lemma for_in_frame:
  "wf_heap h \<Longrightarrow> frame h h' \<Longrightarrow> a < length h \<Longrightarrow> for_in h' a = for_in h a"
  by (rule for_in_stable [where R = "{..<length h}"]) (auto simp: wf_heap_closed frame_iff)

section \<open>The copy of an error\<close>

lemma get_new_intrinsic:
  "get (h @ [\<lparr>kind = kd, proto = PIntrinsic i, props = ps\<rparr>]) (length h) k =
     (case own_slot kd k of
        Some r \<Rightarrow> (case r of None \<Rightarrow> VUndefined | Some (v, e) \<Rightarrow> v)
      | None \<Rightarrow> (case map_of ps k of Some (v, e) \<Rightarrow> v | None \<Rightarrow> intrinsic_get i k))"
  by (simp add: get_def split: option.splits)



lemmas wf_defs = wf_heap_def obj_in_def val_in_def proto_in_def


section \<open>The loops\<close>

lemma unchanged_eq: "unchanged ob ob' \<Longrightarrow> bookkeeping (kind ob) = None \<Longrightarrow> ob' = ob"
  by (cases ob; cases ob') (auto simp: unchanged_def same_slots_cases)

lemma assign_bookkeeping:
  "assign k v ob = Inr ob' \<Longrightarrow> bookkeeping (kind ob) = None \<Longrightarrow> bookkeeping (kind ob') = None"
  by (cases "kind ob") (auto simp: assign_def split: if_splits val.splits pkey.splits)

lemma frame_except_refl [simp]: "frame_except d h h"
  by (simp add: frame_except_iff)

lemma frame_except_length: "frame_except d h h' \<Longrightarrow> length h \<le> length h'"
  by (simp add: frame_except_iff)

lemma made_by_mono:
  "made_by rec src dst h1 h' k v \<Longrightarrow> frame_except dst h h1 \<Longrightarrow> made_by rec src dst h h' k v"
  unfolding made_by_def by (meson frame_except_trans)

lemma copy_keys_result:
  assumes fr: "framing rec"
  shows "copy_keys rec src dst ks h = (Inr u, h') \<Longrightarrow> dst < length h
    \<Longrightarrow> bookkeeping (kind (h ! dst)) = None
    \<Longrightarrow> \<exists>vs. length vs = length ks \<and> assigns (zip ks vs) (h ! dst) = Inr (h' ! dst) \<and>
             list_all2 (made_by rec src dst h h') ks vs"
proof (induction ks arbitrary: h)
  case Nil
  then show ?case by simp
next
  case (Cons k ks)
  obtain r1 h1 where rec: "rec (get h src k) h = (r1, h1)" by (cases "rec (get h src k) h")
  with Cons.prems(1) obtain v where r1: "r1 = Inr v" by (cases r1) auto
  obtain r2 h2 where st: "store dst k v h1 = (r2, h2)" by (cases "store dst k v h1")
  with Cons.prems(1) rec r1 have r2: "r2 = Inr ()" by (cases r2) auto
  from Cons.prems(1) rec r1 st r2 have rest: "copy_keys rec src dst ks h2 = (Inr u, h')" by simp
  have f1: "frame h h1" using framingD [OF fr rec] .
  then have len1: "dst < length h1" and un: "unchanged (h ! dst) (h1 ! dst)"
    using Cons.prems(2) by (auto simp: frame_iff)
  from unchanged_eq [OF un Cons.prems(3)] have same: "h1 ! dst = h ! dst" .
  from st r2 len1 obtain ob' where as: "assign k v (h1 ! dst) = Inr ob'" and h2: "h2 = h1[dst := ob']"
    by (auto simp: store_def lookup_def split: sum.splits)
  have len2: "dst < length h2" and at2: "h2 ! dst = ob'" using len1 h2 by simp_all
  have bk2: "bookkeeping (kind (h2 ! dst)) = None"
    using assign_bookkeeping [OF as] same Cons.prems(3) at2 by simp
  from Cons.IH [OF rest len2 bk2] obtain vs where vs: "length vs = length ks"
    "assigns (zip ks vs) (h2 ! dst) = Inr (h' ! dst)" "list_all2 (made_by rec src dst h2 h') ks vs"
    by blast
  have f2: "frame_except dst h h2"
    using frame_imp_except [OF f1] store_frame_except [OF st] by (rule frame_except_trans)
  have f3: "frame_except dst h1 h'"
    using store_frame_except [OF st] copy_keys_frame [OF fr rest] by (rule frame_except_trans)
  have head: "made_by rec src dst h h' k v"
    unfolding made_by_def using rec r1 f3 by (intro exI [of _ h] exI [of _ h1]) simp
  have tail: "list_all2 (made_by rec src dst h h') ks vs"
    using vs(3) by (rule list_all2_mono) (rule made_by_mono [OF _ f2])
  show ?case
    using vs(1,2) head tail as same at2
    by (intro exI [of _ "v # vs"]) simp
qed

section \<open>The object that a loop builds\<close>

lemma put_prop_new: "k \<notin> fst ` set ps \<Longrightarrow> put_prop k v ps = ps @ [(k, v, True)]"
  by (induction ps) auto

lemma assigns_append:
  "assigns (kvs @ kvs') ob = (case assigns kvs ob of Inl e \<Rightarrow> Inl e | Inr ob' \<Rightarrow> assigns kvs' ob')"
  by (induction kvs arbitrary: ob) (auto split: sum.splits)

lemma assign_object:
  "kind ob = KObject \<Longrightarrow> k \<noteq> Name ''__proto__'' \<Longrightarrow> k \<notin> fst ` set (props ob)
   \<Longrightarrow> assign k v ob = Inr (ob\<lparr>props := props ob @ [(k, v, True)]\<rparr>)"
  by (simp add: assign_def put_prop_new)

lemma assigns_object:
  "assigns kvs ob = Inr ob' \<Longrightarrow> kind ob = KObject \<Longrightarrow> Name ''__proto__'' \<notin> fst ` set kvs
   \<Longrightarrow> distinct (map fst kvs) \<Longrightarrow> fst ` set kvs \<inter> fst ` set (props ob) = {}
   \<Longrightarrow> ob' = ob\<lparr>props := props ob @ map own kvs\<rparr>"
proof (induction kvs arbitrary: ob)
  case Nil
  then show ?case by simp
next
  case (Cons kv kvs)
  obtain k v where kv: "kv = (k, v)" by (cases kv)
  have a: "assign k v ob = Inr (ob\<lparr>props := props ob @ [(k, v, True)]\<rparr>)"
    using Cons.prems kv by (intro assign_object) auto
  with Cons.prems(1) kv have r: "assigns kvs (ob\<lparr>props := props ob @ [(k, v, True)]\<rparr>) = Inr ob'"
    by simp
  have "ob' = (ob\<lparr>props := props ob @ [(k, v, True)]\<rparr>)
      \<lparr>props := props (ob\<lparr>props := props ob @ [(k, v, True)]\<rparr>) @ map own kvs\<rparr>"
    using Cons.prems kv by (intro Cons.IH [OF r]) auto
  then show ?case using kv by (simp add: own_def)
qed

lemma assign_array:
  "kind ob = KArray n \<Longrightarrow> assign k v ob = Inr ob' \<Longrightarrow> k \<noteq> Name ''__proto__''
   \<Longrightarrow> k \<notin> fst ` set (props ob)
   \<Longrightarrow> ob' = ob\<lparr>kind := KArray (array_len n [k]), props := props ob @ [(k, v, True)]\<rparr>"
  by (cases k) (auto simp: assign_def put_prop_new split: if_splits)

lemma array_len_append: "array_len n (ks @ ks') = array_len (array_len n ks) ks'"
  by (induction n ks rule: array_len.induct) auto

lemma assigns_array:
  "assigns kvs ob = Inr ob' \<Longrightarrow> kind ob = KArray n \<Longrightarrow> Name ''__proto__'' \<notin> fst ` set kvs
   \<Longrightarrow> distinct (map fst kvs) \<Longrightarrow> fst ` set kvs \<inter> fst ` set (props ob) = {}
   \<Longrightarrow> ob' = ob\<lparr>kind := KArray (array_len n (map fst kvs)), props := props ob @ map own kvs\<rparr>"
proof (induction kvs arbitrary: ob n)
  case Nil
  then show ?case by simp
next
  case (Cons kv kvs)
  obtain k v where kv: "kv = (k, v)" by (cases kv)
  from Cons.prems(1) kv obtain ob1 where a: "assign k v ob = Inr ob1" and r: "assigns kvs ob1 = Inr ob'"
    by (auto split: sum.splits)
  have ob1: "ob1 = ob\<lparr>kind := KArray (array_len n [k]), props := props ob @ [(k, v, True)]\<rparr>"
    using Cons.prems kv a by (intro assign_array) auto
  have "ob' = ob1\<lparr>kind := KArray (array_len (array_len n [k]) (map fst kvs)),
                  props := props ob1 @ map own kvs\<rparr>"
    using Cons.prems kv ob1 by (intro Cons.IH [OF r]) auto
  then show ?case using kv ob1 array_len_append [of n "[k]" "map fst kvs"]
    by (simp add: own_def)
qed

section \<open>The keys that a loop visits\<close>

lemma set_idxs: "set (idxs ks) = {i. Idx i \<in> set ks}"
  by (induction ks rule: idxs.induct) auto

lemma set_names: "set (names ks) = {k \<in> set ks. \<exists>s. k = Name s}"
  by (induction ks rule: names.induct) auto

lemma distinct_idxs: "distinct ks \<Longrightarrow> distinct (idxs ks)"
  by (induction ks rule: idxs.induct) (auto simp: set_idxs)

lemma distinct_names: "distinct ks \<Longrightarrow> distinct (names ks)"
  by (induction ks rule: names.induct) (auto simp: set_names)

lemma set_canon [simp]: "set (canon ks) = set ks"
proof -
  have "k \<in> set ks \<longleftrightarrow> k \<in> Idx ` {i. Idx i \<in> set ks} \<or> (k \<in> set ks \<and> (\<exists>s. k = Name s))" for k
    by (cases k) auto
  then show ?thesis by (auto simp: canon_def set_idxs set_names)
qed

lemma distinct_canon: "distinct ks \<Longrightarrow> distinct (canon ks)"
  by (auto simp: canon_def distinct_map distinct_idxs distinct_names set_names inj_on_def)

lemma names_map_Idx [simp]: "names (map Idx xs) = []"
  by (induction xs) auto

lemma idxs_map_Idx [simp]: "idxs (map Idx xs) = xs"
  by (induction xs) auto

lemma names_append [simp]: "names (xs @ ys) = names xs @ names ys"
  by (induction xs rule: names.induct) auto

lemma idxs_append [simp]: "idxs (xs @ ys) = idxs xs @ idxs ys"
  by (induction xs rule: idxs.induct) auto

lemma names_names [simp]: "names (names ks) = names ks"
  by (induction ks rule: names.induct) auto

lemma idxs_names [simp]: "idxs (names ks) = []"
  by (induction ks rule: names.induct) auto

lemma canon_canon [simp]: "canon (canon ks) = canon ks"
  by (simp add: canon_def sorted_sort_id)

lemma enumerable_keys_distinct:
  "distinct (map fst ps) \<Longrightarrow> distinct (map fst (filter (\<lambda>(k, v, e). e) ps))"
  by (rule distinct_map_filter)

lemma distinct_enum_keys: "distinct (map fst (props ob)) \<Longrightarrow> distinct (enum_keys ob)"
  by (cases "kind ob")
     (auto simp: enum_keys_def Let_def distinct_canon enumerable_keys_distinct distinct_names
        distinct_map inj_on_def set_names)

lemma enum_subset_shadow: "set (enum_keys ob) \<subseteq> set (shadow_keys ob)"
  by (cases "kind ob") (auto simp: enum_keys_def shadow_keys_def Let_def set_names)

lemma for_in_from_distinct:
  assumes "\<forall>a<length h. distinct (map fst (props (h ! a)))"
  shows "distinct (for_in_from vis h p seen) \<and> set (for_in_from vis h p seen) \<inter> set seen = {}"
  using assms
proof (induction vis h p seen rule: for_in_from.induct)
  case (3 vis h a seen)
  show ?case
  proof (cases "a < length h \<and> a \<notin> set vis")
    case True
    with "3.IH" "3.prems"
    have IH: "distinct (for_in_from (a # vis) h (proto (h ! a)) (seen @ shadow_keys (h ! a)))"
      "set (for_in_from (a # vis) h (proto (h ! a)) (seen @ shadow_keys (h ! a)))
         \<inter> set (seen @ shadow_keys (h ! a)) = {}"
      by auto
    have d: "distinct (enum_keys (h ! a))" using True "3.prems" by (simp add: distinct_enum_keys)
    from True IH d enum_subset_shadow [of "h ! a"] show ?thesis by auto
  next
    case False
    then show ?thesis by auto
  qed
qed simp_all

lemma distinct_for_in: "wf_heap h \<Longrightarrow> distinct (for_in h a)"
  unfolding for_in_def using for_in_from_distinct [of h "[]" "PObj a" "[]"]
  by (auto simp: wf_heap_distinct)

lemma for_in_own:
  "d < length h \<Longrightarrow> proto (h ! d) = PIntrinsic i \<Longrightarrow> for_in h d = enum_keys (h ! d)"
  by (simp add: for_in_def)

lemma enum_keys_own:
  "bookkeeping (kind ob) = None \<Longrightarrow> (\<And>t es. kind ob \<noteq> KTypedArray t es) \<Longrightarrow>
   props ob = map own kvs \<Longrightarrow> enum_keys ob = canon (map fst kvs)"
  by (cases "kind ob") (auto simp: enum_keys_def own_def filter_map comp_def)

section \<open>The copy of a plain object\<close>

lemma table_nested: "duplicate_table n = strategies (nested n)"
  by (cases n) (simp_all add: duplicate_def)

lemma framing_nested: "framing (nested n)"
  by (cases n) (simp_all add: framing_duplicate, simp add: framing_def)

lemma copy_into_result:
  assumes fr: "framing rec" and wf: "wf_heap hb" and fb: "frame hb h" and src: "src < length hb"
    and bk: "bookkeeping (kind ret) = None"
    and run: "copy_into rec src ret h = (Inr r, h')"
  shows "r = VRef (length h) \<and> length h < length h' \<and> frame h h' \<and>
         (\<exists>vs. length vs = length (for_in hb src) \<and>
               assigns (zip (for_in hb src) vs) ret = Inr (h' ! length h) \<and>
               list_all2 (made_by rec src (length h) (h @ [ret]) h') (for_in hb src) vs)"
proof -
  have f0: "frame hb (h @ [ret])" using fb frame_append by (rule frame_trans)
  have keys: "for_in (h @ [ret]) src = for_in hb src"
    using wf f0 src by (rule for_in_frame)
  obtain r1 h1 where ck: "copy_keys rec src (length h) (for_in hb src) (h @ [ret]) = (r1, h1)"
    by (cases "copy_keys rec src (length h) (for_in hb src) (h @ [ret])")
  with run keys have r1: "r1 = Inr ()" and r: "r = VRef (length h)" and h1: "h1 = h'"
    by (cases r1; simp add: copy_into_def Let_def)+
  from copy_keys_result [OF fr ck [unfolded r1 h1]] bk
  obtain vs where vs: "length vs = length (for_in hb src)"
    "assigns (zip (for_in hb src) vs) ret = Inr (h' ! length h)"
    "list_all2 (made_by rec src (length h) (h @ [ret]) h') (for_in hb src) vs"
    by auto
  have "frame_except (length h) (h @ [ret]) h'"
    using copy_keys_frame [OF fr ck] h1 by simp
  then have "length h < length h'" "frame h h'"
    by (auto dest: frame_except_length frame_except_new)
  with r vs show ?thesis by blast
qed

text \<open>
  C10, amended. When \<^verbatim>\<open>duplicate\<close> returns on a plain object that enumerates no key
  \<^verbatim>\<open>__proto__\<close>, the copy is a new plain object whose prototype is \<^verbatim>\<open>Object.prototype\<close>,
  whatever the prototype of the source, and its own properties are, in the order of
  their creation, the keys that the source enumerates, inherited ones included, all
  enumerable.
\<close>

theorem object_copy_prototype:
  assumes wf: "wf_heap h" and ob: "lookup h a = Some ob" "kind ob = KObject"
    and nk: "Name ''__proto__'' \<notin> set (for_in h a)"
    and run: "duplicate n (VRef a) h = (Inr r, h')"
  shows "r = VRef (length h) \<and> length h < length h' \<and>
         kind (h' ! length h) = KObject \<and>
         proto (h' ! length h) = PIntrinsic (Proto OBJECT) \<and>
         map fst (props (h' ! length h)) = for_in h a \<and>
         list_all (\<lambda>(k, v, e). e) (props (h' ! length h))"
proof -
  from ob have lt: "a < length h" and k: "kind (h ! a) = KObject"
    by (auto simp: lookup_def split: if_splits)
  let ?ret = "\<lparr>kind = KObject, proto = PIntrinsic (Proto OBJECT), props = []\<rparr>"
  from run lt k have ci: "copy_into (nested n) a ?ret h = (Inr r, h')"
    by (simp add: duplicate_def table_nested dispatch_def typeOf_def lookup_def strategies_def
        duplicateObject_def)
  from copy_into_result [OF framing_nested wf frame_refl lt _ ci]
  obtain vs where r: "r = VRef (length h)" "length h < length h'"
    and vs: "length vs = length (for_in h a)"
    "assigns (zip (for_in h a) vs) ?ret = Inr (h' ! length h)"
    by auto
  have "h' ! length h = ?ret\<lparr>props := props ?ret @ map own (zip (for_in h a) vs)\<rparr>"
    using vs nk distinct_for_in [OF wf, of a]
    by (intro assigns_object) (auto dest: set_zip_leftD)
  then have "h' ! length h = \<lparr>kind = KObject, proto = PIntrinsic (Proto OBJECT),
      props = map own (zip (for_in h a) vs)\<rparr>" by simp
  with r vs(1) show ?thesis
    by (simp add: own_def comp_def list_all_iff)
qed


lemma inherited_run:
  "duplicate 2 (VRef 0) inherited_heap =
     (Inr (VRef 3),
      inherited_heap @
      [\<lparr>kind = KObject, proto = PIntrinsic (Proto OBJECT),
        props = [(Name ''a'', VNum 1, True), (Name ''b'', VRef 4, True)]\<rparr>,
       \<lparr>kind = KObject, proto = PIntrinsic (Proto OBJECT),
        props = [(Name ''c'', VNum 2, True)]\<rparr>])"
  by (simp add: inherited_heap_def run_defs eval_nat_numeral)

theorem object_copy_prototype_witness:
  "wf_heap inherited_heap \<and> lookup inherited_heap 0 = Some (inherited_heap ! 0) \<and>
   kind (inherited_heap ! 0) = KObject \<and>
   for_in inherited_heap 0 = [Name ''a'', Name ''b''] \<and>
   proto (inherited_heap ! 0) = PObj 1 \<and>
   map fst (props (inherited_heap ! 0)) = [Name ''a''] \<and>
   proto (snd (duplicate 2 (VRef 0) inherited_heap) ! 3) = PIntrinsic (Proto OBJECT) \<and>
   map fst (props (snd (duplicate 2 (VRef 0) inherited_heap) ! 3)) = [Name ''a'', Name ''b'']"
proof -
  have h: "wf_heap inherited_heap" "lookup inherited_heap 0 = Some (inherited_heap ! 0)"
    "kind (inherited_heap ! 0) = KObject"
    by (simp_all add: inherited_heap_def wf_defs lookup_def)
  have k: "for_in inherited_heap 0 = [Name ''a'', Name ''b'']"
    by (simp add: inherited_heap_def for_in_def enum_keys_def shadow_keys_def canon_def)
  have len: "length inherited_heap = 3" by (simp add: inherited_heap_def)
  from object_copy_prototype [OF h _ inherited_run] k len
  have "proto (snd (duplicate 2 (VRef 0) inherited_heap) ! 3) = PIntrinsic (Proto OBJECT) \<and>
        map fst (props (snd (duplicate 2 (VRef 0) inherited_heap) ! 3)) = [Name ''a'', Name ''b'']"
    by (simp add: inherited_run)
  with h k show ?thesis by (simp add: inherited_heap_def)
qed

text \<open>
  C10 as stated fails on the object that \<^verbatim>\<open>JSON.parse('{"__proto__": {"a": 1}}')\<close> gives:
  the assignment \<^verbatim>\<open>retObj["__proto__"] = ...\<close> reaches the setter of \<^verbatim>\<open>Object.prototype\<close>, so
  the prototype of the copy is the copy of \<^verbatim>\<open>{a: 1}\<close>, and the copy has no own property.
\<close>

theorem object_copy_prototype_counterexample:
  "kind (proto_key_heap ! 0) = KObject \<and>
   duplicate 2 (VRef 0) proto_key_heap =
     (Inr (VRef 2),
      proto_key_heap @
      [\<lparr>kind = KObject, proto = PObj 3, props = []\<rparr>,
       \<lparr>kind = KObject, proto = PIntrinsic (Proto OBJECT),
        props = [(Name ''a'', VNum 1, True)]\<rparr>]) \<and>
   PObj 3 \<noteq> PIntrinsic (Proto OBJECT)"
  by (simp add: proto_key_heap_def run_defs eval_nat_numeral)

section \<open>Regions of the heap\<close>

text \<open>What a closed region shows does not depend on the rest of the heap.\<close>

lemma val_in_mono: "R \<subseteq> R' \<Longrightarrow> val_in R v \<Longrightarrow> val_in R' v"
  by (auto simp: val_in_def split: val.splits)

lemma proto_in_mono: "R \<subseteq> R' \<Longrightarrow> proto_in R p \<Longrightarrow> proto_in R' p"
  by (cases p) (auto simp: proto_in_def)

lemma obj_in_mono: "R \<subseteq> R' \<Longrightarrow> obj_in R ob \<Longrightarrow> obj_in R' ob"
proof -
  assume sub: "R \<subseteq> R'" and ob: "obj_in R ob"
  have "proto_in R' (proto ob)"
    using sub ob by (auto simp: obj_in_def intro: proto_in_mono)
  moreover have "list_all (\<lambda>(k, v, e). val_in R' v) (props ob)"
    using ob val_in_mono [OF sub] by (fastforce simp: obj_in_def list_all_iff)
  moreover have "\<forall>v\<in>set_kind (erase (kind ob)). val_in R' v"
    using ob val_in_mono [OF sub] by (simp add: obj_in_def)
  ultimately show ?thesis by (simp add: obj_in_def)
qed

lemma closed_on_Un: "closed_on R h \<Longrightarrow> closed_on R' h \<Longrightarrow> closed_on (R \<union> R') h"
  unfolding closed_on_def by (meson Un_iff obj_in_mono sup_ge1 sup_ge2)

lemma closed_on_Union: "(\<And>R. R \<in> A \<Longrightarrow> closed_on R h) \<Longrightarrow> closed_on (\<Union>A) h"
  unfolding closed_on_def by (meson Union_iff Union_upper obj_in_mono)

lemma closed_on_unchanged:
  "closed_on R h \<Longrightarrow> \<forall>a\<in>R. unchanged (h ! a) (h' ! a) \<Longrightarrow> length h \<le> length h'
   \<Longrightarrow> closed_on R h'"
  unfolding closed_on_def by (metis obj_in_unchanged less_le_trans)

lemma own_slot_val_in: "own_slot kd k = Some (Some (v, e)) \<Longrightarrow> val_in R v"
  by (erule own_slot.elims) (auto simp: val_in_def split: if_splits)

lemma get_from_val_in:
  assumes "closed_on R h"
  shows "proto_in R p \<Longrightarrow> val_in R (get_from vis h p k)"
  using assms
proof (induction vis h p k rule: get_from.induct)
  case (1 vis h k)
  then show ?case by (simp add: val_in_def)
next
  case (2 vis h i k)
  then show ?case by (cases i) (simp_all add: val_in_def)
next
  case (3 vis h a k)
  from "3.prems" have ob: "obj_in R (h ! a)" by (simp add: proto_in_def closed_on_def)
  show ?case
  proof (cases "a < length h \<and> a \<notin> set vis")
    case False
    then show ?thesis by (auto simp: val_in_def)
  next
    case True
    show ?thesis
    proof (cases "own_slot (kind (h ! a)) k")
      case (Some r)
      then show ?thesis using True own_slot_val_in [of "kind (h ! a)" k _ _ R]
        by (cases r) (auto simp: val_in_def)
    next
      case None
      show ?thesis
      proof (cases "map_of (props (h ! a)) k")
        case (Some r)
        then have "(k, r) \<in> set (props (h ! a))" by (rule map_of_SomeD)
        with ob have "val_in R (fst r)" by (cases r) (auto simp: obj_in_def list_all_iff)
        with True None Some show ?thesis by (cases r) simp
      next
        case N2: None
        have "val_in R (get_from (a # vis) h (proto (h ! a)) k)"
          using "3.IH" [OF True None N2] ob "3.prems" by (simp add: obj_in_def)
        with True None N2 show ?thesis by simp
      qed
    qed
  qed
qed

lemma get_val_in: "closed_on R h \<Longrightarrow> a \<in> R \<Longrightarrow> val_in R (get h a k)"
  unfolding get_def by (rule get_from_val_in) (auto simp: proto_in_def)

lemma observed_same_slots: "same_slots k k' \<Longrightarrow> observed k' = observed k"
  by (auto simp: same_slots_cases)

lemma snapshot_stable:
  assumes "closed_on R h" "\<forall>a\<in>R. unchanged (h ! a) (h' ! a)" "length h \<le> length h'"
  shows "val_in R v \<Longrightarrow> snapshot d h' v = snapshot d h v"
proof (induction d arbitrary: v)
  case 0
  then show ?case by simp
next
  case (Suc d)
  show ?case
  proof (cases v)
    case (VRef a)
    with Suc.prems have aR: "a \<in> R" by (simp add: val_in_def)
    with assms have lt: "a < length h" "a < length h'" and ob: "obj_in R (h ! a)"
      and un: "unchanged (h ! a) (h' ! a)"
      by (auto simp: closed_on_def)
    from un have k: "erase (kind (h' ! a)) = erase (kind (h ! a))"
      "observed (kind (h' ! a)) = observed (kind (h ! a))"
      by (auto simp: unchanged_def erase_same_slots observed_same_slots)
    have g: "get h' a key = get h a key" for key
      using assms aR by (rule get_stable)
    have f: "for_in h' a = for_in h a"
      using assms aR by (rule for_in_stable)
    have s: "snapshot d h' (get h a key) = snapshot d h (get h a key)" for key
      using get_val_in [OF assms(1) aR] by (rule Suc.IH)
    have m: "map_kind (snapshot d h') (erase (kind (h ! a)))
           = map_kind (snapshot d h) (erase (kind (h ! a)))"
      using ob by (intro kind.map_cong refl Suc.IH) (simp add: obj_in_def)
    show ?thesis
      using VRef lt by (simp add: k g f s m)
  qed simp_all
qed

section \<open>What the copies show: the strategies that do not recurse\<close>

lemma snapshot_scalar [simp]: "\<not> is_ref v \<Longrightarrow> snapshot d h v = TLeaf v"
  by (cases d; cases v) simp_all

lemma snapshot_0_ref [simp]: "snapshot 0 h (VRef a) = TCut"
  by simp

lemma get_own:
  "L < length h \<Longrightarrow> proto (h ! L) = PIntrinsic i \<Longrightarrow> get h L k = get [h ! L] 0 k"
  by (simp add: get_def split: option.splits)

lemma snapshot_new:
  "L < length h \<Longrightarrow> proto (h ! L) = PIntrinsic i \<Longrightarrow>
   snapshot (Suc d) h (VRef L) =
     TNode (map_kind (snapshot d h) (erase (kind (h ! L))))
       (map (\<lambda>k. (k, snapshot d h (get [h ! L] 0 k))) (canon (enum_keys (h ! L))))
       (map (\<lambda>k. snapshot d h (get [h ! L] 0 k)) (observed (kind (h ! L))))"
proof -
  assume a: "L < length h" "proto (h ! L) = PIntrinsic i"
  have g: "get [h ! L] 0 k = get h L k" for k
    using get_own [OF a] by simp
  show ?thesis
    using a by (simp add: for_in_own g)
qed

lemma base_closed: "wf_heap hb \<Longrightarrow> frame hb h \<Longrightarrow> closed_on {..<length hb} h"
  by (rule closed_on_unchanged [OF wf_heap_closed]) (auto simp: frame_iff)

lemma base_snapshot:
  "wf_heap hb \<Longrightarrow> frame hb h \<Longrightarrow> val_in {..<length hb} v \<Longrightarrow> snapshot d h v = snapshot d hb v"
  by (rule snapshot_stable [OF wf_heap_closed]) (auto simp: frame_iff)

lemma base_get:
  "wf_heap hb \<Longrightarrow> a < length hb \<Longrightarrow> val_in {..<length hb} (get hb a k)"
  by (rule get_val_in [OF wf_heap_closed]) auto

lemma base_kind:
  "frame hb h \<Longrightarrow> a < length hb \<Longrightarrow> bookkeeping (kind (h ! a)) = None \<Longrightarrow> hb ! a = h ! a"
proof -
  assume "frame hb h" "a < length hb" and bk: "bookkeeping (kind (h ! a)) = None"
  then have un: "unchanged (hb ! a) (h ! a)" by (simp add: frame_iff)
  then have "bookkeeping (kind (hb ! a)) = None"
    using bk by (auto simp: unchanged_def same_slots_cases)
  from unchanged_eq [OF un this] show ?thesis by simp
qed

lemma base_slots:
  "wf_heap hb \<Longrightarrow> a < length hb \<Longrightarrow> v \<in> set_kind (erase (kind (hb ! a))) \<Longrightarrow> val_in {..<length hb} v"
  by (auto simp: wf_heap_def list_all_length obj_in_def)

lemma intrinsic_get_val_in: "val_in R (intrinsic_get i k)"
  by (cases i) (simp_all add: val_in_def)

lemma get_own_val_in:
  assumes "proto ob = PIntrinsic i" "obj_in R ob"
  shows "val_in R (get [ob] 0 k)"
proof (cases "own_slot (kind ob) k")
  case (Some r)
  then show ?thesis
    using own_slot_val_in [of "kind ob" k _ _ R]
    by (cases r) (auto simp: get_def val_in_def)
next
  case None
  show ?thesis
  proof (cases "map_of (props ob) k")
    case N2: None
    with None assms(1) show ?thesis by (simp add: get_def intrinsic_get_val_in)
  next
    case (Some r)
    then have "(k, r) \<in> set (props ob)" by (rule map_of_SomeD)
    with assms(2) have "val_in R (fst r)" by (cases r) (auto simp: obj_in_def list_all_iff)
    with None Some show ?thesis by (cases r) (simp add: get_def)
  qed
qed

text \<open>A strategy that returns its argument.\<close>

lemma copies_identity:
  assumes wf: "wf_heap hb" and fr: "frame hb h" and x: "val_in {..<length hb} x"
    and id: "\<And>d. dup_tree (snapshot d hb x) = snapshot d hb x"
  shows "copies_to hb h x x h"
  unfolding copies_to_def
proof (intro conjI allI)
  show "\<exists>R. {..<length hb} \<subseteq> R \<and> R \<subseteq> {..<length hb} \<union> {length h..<length h} \<and>
          closed_on R h \<and> val_in R x"
    using base_closed [OF wf fr] x by (intro exI [of _ "{..<length hb}"]) auto
  show "snapshot d h x = dup_tree (snapshot d hb x)" for d
    using base_snapshot [OF wf fr x] id by simp
qed

text \<open>A strategy that allocates one object made of what the heap had.\<close>

lemma copies_new:
  assumes wf: "wf_heap hb" and fr: "frame hb h'" and lt: "length hb \<le> L" "length h \<le> L" "L < length h'"
    and pr: "proto (h' ! L) = PIntrinsic i" and ob: "obj_in {..<length hb} (h' ! L)"
    and sn: "\<And>d. TNode (map_kind (snapshot d hb) (erase (kind (h' ! L))))
       (map (\<lambda>k. (k, snapshot d hb (get [h' ! L] 0 k))) (canon (enum_keys (h' ! L))))
       (map (\<lambda>k. snapshot d hb (get [h' ! L] 0 k)) (observed (kind (h' ! L))))
       = dup_tree (snapshot (Suc d) hb x)"
    and x: "is_ref x"
  shows "copies_to hb h x (VRef L) h'"
  unfolding copies_to_def
proof (intro conjI allI)
  have "closed_on ({..<length hb} \<union> {L}) h'"
    using base_closed [OF wf fr] lt ob
    by (auto simp: closed_on_def intro: obj_in_mono [of "{..<length hb}"])
  then show "\<exists>R. {..<length hb} \<subseteq> R \<and> R \<subseteq> {..<length hb} \<union> {length h..<length h'} \<and>
          closed_on R h' \<and> val_in R (VRef L)"
    using lt by (intro exI [of _ "{..<length hb} \<union> {L}"]) (auto simp: val_in_def)
  have own: "val_in {..<length hb} (get [h' ! L] 0 k)" for k
    using pr ob by (rule get_own_val_in)
  show "snapshot d h' (VRef L) = dup_tree (snapshot d hb x)" for d
  proof (cases d)
    case 0
    with x show ?thesis by (cases x) simp_all
  next
    case (Suc d')
    have "map_kind (snapshot d' h') (erase (kind (h' ! L)))
        = map_kind (snapshot d' hb) (erase (kind (h' ! L)))"
      using ob by (intro kind.map_cong refl base_snapshot [OF wf fr]) (simp add: obj_in_def)
    then show ?thesis
      unfolding Suc snapshot_new [OF lt(3) pr] sn [symmetric]
      by (simp add: base_snapshot [OF wf fr own])
  qed
qed


lemma snapshot_base_ref:
  "a < length hb \<Longrightarrow>
   dup_tree (snapshot (Suc d) hb (VRef a)) =
     dup_node (map_kind (snapshot d hb) (erase (kind (hb ! a))))
       (map (\<lambda>k. (k, snapshot d hb (get hb a k))) (canon (for_in hb a)))
       (map (\<lambda>k. snapshot d hb (get hb a k)) (observed (kind (hb ! a))))
       (map (\<lambda>k. (k, dup_tree (snapshot d hb (get hb a k)))) (canon (for_in hb a)))"
  by (simp add: comp_def)

lemma dup_tree_same:
  assumes "a < length hb" and "kind (hb ! a) \<in> {KMath, KJSON, KGenerator, KWasm}"
  shows "dup_tree (snapshot d hb (VRef a)) = snapshot d hb (VRef a)"
proof (cases d)
  case 0
  then show ?thesis by simp
next
  case (Suc d')
  show ?thesis
    unfolding Suc using assms by (auto simp: comp_def dup_node_def)
qed

lemma contract_identity:
  assumes wf: "wf_heap hb" and fr: "frame hb h" and x: "val_in {..<length hb} x"
    and t: "typeOf h x \<in> {STRING, NUMBER, BOOLEAN, NULL, UNDEFINED, SYMBOL, MATH, JSON, GENERATOR, WASM}"
  shows "copies_to hb h x x h"
proof (rule copies_identity [OF wf fr x])
  fix d
  show "dup_tree (snapshot d hb x) = snapshot d hb x"
  proof (cases x)
    case (VRef a)
    with x have lt: "a < length hb" by (simp add: val_in_def)
    with fr have lt': "a < length h" by (auto simp: frame_iff)
    from t VRef lt' have k: "kind (h ! a) \<in> {KMath, KJSON, KGenerator, KWasm}"
      by (cases "kind (h ! a)") (auto simp: typeOf_def lookup_def elim: tag_of_kind.elims tag_of_tarray.elims)
    then have "bookkeeping (kind (h ! a)) = None" by auto
    from base_kind [OF fr lt this] k have "kind (hb ! a) \<in> {KMath, KJSON, KGenerator, KWasm}" by simp
    then show ?thesis unfolding VRef
      by (intro dup_tree_same lt)
  qed simp_all
qed


lemma frame_length: "frame h h' \<Longrightarrow> length h \<le> length h'"
  by (simp add: frame_iff)

lemma copies_fresh:
  assumes wf: "wf_heap hb" and fr: "frame hb h" and a: "a < length hb"
    and ob: "obj_in {..<length hb} ob" and pr: "proto ob = PIntrinsic i"
    and sn: "\<And>d. TNode (map_kind (snapshot d hb) (erase (kind ob)))
       (map (\<lambda>k. (k, snapshot d hb (get [ob] 0 k))) (canon (enum_keys ob)))
       (map (\<lambda>k. snapshot d hb (get [ob] 0 k)) (observed (kind ob)))
       = dup_tree (snapshot (Suc d) hb (VRef a))"
  shows "copies_to hb h (VRef a) (VRef (length h)) (h @ [ob])"
proof (rule copies_new [OF wf, where i = i])
  show "frame hb (h @ [ob])" using fr frame_append by (rule frame_trans)
  show "length hb \<le> length h" using fr by (rule frame_length)
qed (use ob pr sn in simp_all)

lemma obj_in_no_refs:
  "proto ob = PIntrinsic i \<Longrightarrow> props ob = [] \<Longrightarrow> set_kind (erase (kind ob)) = {} \<Longrightarrow> obj_in R ob"
  by (simp add: obj_in_def proto_in_def)

lemma contract_duplicateDate:
  assumes wf: "wf_heap hb" and fr: "frame hb h" and x: "val_in {..<length hb} x"
    and run: "duplicateDate x h = (Inr r, h')"
  shows "copies_to hb h x r h'"
proof -
  from run obtain a tv where xa: "x = VRef a" "a < length h" "kind (h ! a) = KDate tv"
    and r: "r = VRef (length h)"
      "h' = h @ [\<lparr>kind = KDate tv, proto = PIntrinsic (Proto DATE), props = []\<rparr>]"
    by (auto simp: duplicateDate_def kind_of_def lookup_def fresh_def ill_typed_def
        split: val.splits option.splits kind.splits if_splits)
  from x xa have lt: "a < length hb" by (simp add: val_in_def)
  from base_kind [OF fr lt] xa have k: "kind (hb ! a) = KDate tv" by simp
  show ?thesis
    unfolding xa r
    by (rule copies_fresh [OF wf fr lt])
       (simp_all add: obj_in_no_refs lt k dup_node_def enum_keys_def canon_def)
qed

lemma contract_duplicateRegExp:
  assumes wf: "wf_heap hb" and fr: "frame hb h" and x: "val_in {..<length hb} x"
    and run: "duplicateRegExp x h = (Inr r, h')"
  shows "copies_to hb h x r h'"
proof -
  from run obtain a src fl where xa: "x = VRef a" "a < length h" "kind (h ! a) = KRegExp src fl"
    and r: "r = VRef (length h)"
      "h' = h @ [\<lparr>kind = KRegExp src fl, proto = PIntrinsic (Proto REGEXP),
                   props = [(Name ''lastIndex'', VNum 0, False)]\<rparr>]"
    by (auto simp: duplicateRegExp_def kind_of_def lookup_def fresh_def ill_typed_def
        split: val.splits option.splits kind.splits if_splits)
  from x xa have lt: "a < length hb" by (simp add: val_in_def)
  from base_kind [OF fr lt] xa have k: "kind (hb ! a) = KRegExp src fl" by simp
  show ?thesis
    unfolding xa r
    by (rule copies_fresh [OF wf fr lt])
       (simp_all add: obj_in_def proto_in_def val_in_def lt k dup_node_def enum_keys_def canon_def)
qed

lemma contract_duplicateFunction:
  assumes wf: "wf_heap hb" and fr: "frame hb h" and x: "val_in {..<length hb} x"
    and run: "duplicateFunction x h = (Inr r, h')"
  shows "copies_to hb h x r h'"
proof -
  from run obtain a fl src ok where xa: "x = VRef a" "a < length h" "kind (h ! a) = KFunction fl src ok"
    and r: "r = VRef (length h)"
      "h' = h @ [\<lparr>kind = KFunction fl src ok,
                   proto = PIntrinsic (Proto (tag_of_kind (KFunction fl src ok :: val kind))),
                   props = []\<rparr>]"
    by (auto simp: duplicateFunction_def kind_of_def lookup_def fresh_def ill_typed_def
        split: val.splits option.splits kind.splits if_splits)
  from x xa have lt: "a < length hb" by (simp add: val_in_def)
  from base_kind [OF fr lt] xa have k: "kind (hb ! a) = KFunction fl src ok" by simp
  show ?thesis
    unfolding xa r
    by (rule copies_fresh [OF wf fr lt])
       (simp_all add: obj_in_no_refs lt k dup_node_def enum_keys_def canon_def)
qed

lemma contract_duplicateDataView:
  assumes wf: "wf_heap hb" and fr: "frame hb h" and x: "val_in {..<length hb} x"
    and run: "duplicateDataView x h = (Inr r, h')"
  shows "copies_to hb h x r h'"
proof -
  from run obtain a b off len where xa: "x = VRef a" "a < length h" "kind (h ! a) = KDataView b off len"
    and r: "r = VRef (length h)"
      "h' = h @ [\<lparr>kind = KDataView b off len, proto = PIntrinsic (Proto DATAVIEW), props = []\<rparr>]"
    by (auto simp: duplicateDataView_def kind_of_def lookup_def fresh_def ill_typed_def
        split: val.splits option.splits kind.splits if_splits)
  from x xa have lt: "a < length hb" by (simp add: val_in_def)
  from base_kind [OF fr lt] xa have k: "kind (hb ! a) = KDataView b off len" by simp
  have b: "val_in {..<length hb} b" using base_slots [OF wf lt, of b] k by simp
  show ?thesis
    unfolding xa r
    by (rule copies_fresh [OF wf fr lt])
       (simp_all add: obj_in_def proto_in_def b lt k dup_node_def enum_keys_def canon_def)
qed

lemma contract_duplicateMapType:
  assumes wf: "wf_heap hb" and fr: "frame hb h" and x: "val_in {..<length hb} x"
    and run: "duplicateMapType Strong x h = (Inr r, h')"
  shows "copies_to hb h x r h'"
proof -
  from run obtain a es where xa: "x = VRef a" "a < length h" "kind (h ! a) = KMap es"
    and r: "r = VRef (length h)"
      "h' = h @ [\<lparr>kind = KMap es, proto = PIntrinsic (Proto MAP), props = []\<rparr>]"
    by (auto simp: duplicateMapType_def kind_of_def lookup_def fresh_def ill_typed_def
        split: val.splits option.splits sum.splits if_splits elim!: entries_of.elims)
  from x xa have lt: "a < length hb" by (simp add: val_in_def)
  from base_kind [OF fr lt] xa have k: "kind (hb ! a) = KMap es" by simp
  have b: "\<forall>v\<in>set_kind (KMap es). val_in {..<length hb} v"
    using base_slots [OF wf lt] k by simp
  show ?thesis
    unfolding xa r
    by (rule copies_fresh [OF wf fr lt])
       (use b in \<open>simp_all add: obj_in_def proto_in_def lt k dup_node_def enum_keys_def canon_def\<close>)
qed

lemma contract_duplicateSetType:
  assumes wf: "wf_heap hb" and fr: "frame hb h" and x: "val_in {..<length hb} x"
    and run: "duplicateSetType Strong x h = (Inr r, h')"
  shows "copies_to hb h x r h'"
proof -
  from run obtain a xs where xa: "x = VRef a" "a < length h" "kind (h ! a) = KSet xs"
    and r: "r = VRef (length h)"
      "h' = h @ [\<lparr>kind = KSet xs, proto = PIntrinsic (Proto SET), props = []\<rparr>]"
    by (auto simp: duplicateSetType_def kind_of_def lookup_def fresh_def ill_typed_def
        split: val.splits option.splits sum.splits if_splits elim!: elements_of.elims)
  from x xa have lt: "a < length hb" by (simp add: val_in_def)
  from base_kind [OF fr lt] xa have k: "kind (hb ! a) = KSet xs" by simp
  have b: "\<forall>v\<in>set_kind (KSet xs). val_in {..<length hb} v"
    using base_slots [OF wf lt] k by simp
  show ?thesis
    unfolding xa r
    by (rule copies_fresh [OF wf fr lt])
       (use b in \<open>simp_all add: obj_in_def proto_in_def lt k dup_node_def enum_keys_def canon_def\<close>)
qed

lemma weak_never:
  "duplicateMapType Weak x h = (Inr r, h') \<Longrightarrow> typeOf h x = WEAKMAP \<Longrightarrow> False"
  "duplicateSetType Weak x h = (Inr r, h') \<Longrightarrow> typeOf h x = WEAKSET \<Longrightarrow> False"
  by (auto simp: duplicateMapType_def duplicateSetType_def kind_of_def lookup_def typeOf_def
      ill_typed_def split: val.splits option.splits sum.splits if_splits
      elim!: tag_of_kind.elims tag_of_tarray.elims)


lemma tag_of_tarray_typed:
  "tag_of_tarray t \<notin> {STRING, NUMBER, BOOLEAN, NULL, UNDEFINED, SYMBOL, FUNCTION, ERROR, REGEXP,
     DATE, OBJECT, ARRAY, MAP, WEAKMAP, SET, WEAKSET, MATH, PROMISE, ARRAYBUFFER, DATAVIEW, JSON,
     GENERATOR, GENERATORFUNC, WASM, ASYNCFUNC}"
  by (cases t) simp_all

lemma tag_ERROR: "tag_of_kind k = ERROR \<Longrightarrow> \<exists>site. k = KError site"
  using tag_of_tarray_typed by (cases k rule: tag_of_kind.cases) auto

lemma tag_ARRAYBUFFER: "tag_of_kind k = ARRAYBUFFER \<Longrightarrow> \<exists>bs. k = KArrayBuffer bs"
  using tag_of_tarray_typed by (cases k rule: tag_of_kind.cases) auto

lemma tag_OBJECT: "tag_of_kind k = OBJECT \<Longrightarrow> k = KObject"
  using tag_of_tarray_typed by (cases k rule: tag_of_kind.cases) auto

lemma tag_ARRAY: "tag_of_kind k = ARRAY \<Longrightarrow> \<exists>n. k = KArray n"
  using tag_of_tarray_typed by (cases k rule: tag_of_kind.cases) auto

lemma tag_of_tarray_inj: "tag_of_tarray t = tag_of_tarray c \<Longrightarrow> t = c"
  by (cases t; cases c) simp_all

lemma tag_of_tarray_listed: "tag_of_tarray t \<noteq> UNLISTED s" "UNLISTED s \<noteq> tag_of_tarray t"
  by (cases t; simp)+

lemma tag_typed: "tag_of_kind k = tag_of_tarray c \<Longrightarrow> \<exists>es. k = KTypedArray c es"
  using tag_of_tarray_typed [of c]
  by (cases k rule: tag_of_kind.cases) (auto dest: tag_of_tarray_inj simp: tag_of_tarray_listed)

lemma typeOf_ref:
  "typeOf h x = t \<Longrightarrow> t \<notin> {STRING, NUMBER, BOOLEAN, NULL, UNDEFINED, SYMBOL, UNLISTED []}
   \<Longrightarrow> \<exists>a. x = VRef a \<and> a < length h \<and> tag_of_kind (kind (h ! a)) = t"
  by (cases x) (auto simp: typeOf_def lookup_def split: if_splits)

lemma to_string_scalar: "to_string v = Inr s \<Longrightarrow> \<not> is_ref v"
  by (cases v) auto

lemma to_index_scalar: "to_index v = Inr n \<Longrightarrow> \<not> is_ref v"
  by (cases v) auto

lemma contract_duplicateError:
  assumes wf: "wf_heap hb" and fr: "frame hb h" and x: "val_in {..<length hb} x"
    and t: "typeOf h x = ERROR"
    and run: "duplicateError x h = (Inr r, h')"
  shows "copies_to hb h x r h'"
proof -
  from typeOf_ref [OF t] obtain a site where xa: "x = VRef a" "a < length h" "kind (h ! a) = KError site"
    by (auto dest: tag_ERROR)
  from x xa have lt: "a < length hb" by (simp add: val_in_def)
  from base_kind [OF fr lt] xa have k: "kind (hb ! a) = KError site" by simp
  define msgv where "msgv = get hb a (Name ''message'')"
  define nm where "nm = get hb a (Name ''name'')"
  have gm: "get h a (Name ''message'') = msgv"
    unfolding msgv_def using wf fr lt by (rule get_frame)
  from run xa gm obtain ob where ne: "new_Error msgv ''duplicateError'' = Inr ob"
    by (auto simp: duplicateError_def split: sum.splits)
  have fr1: "frame hb (h @ [ob])" using fr frame_append by (rule frame_trans)
  have gn: "get (h @ [ob]) a (Name ''name'') = nm"
    unfolding nm_def using wf fr1 lt by (rule get_frame)
  define mp where "mp = (if msgv = VUndefined then []
     else case to_string msgv of Inr s \<Rightarrow> [(Name ''message'', VStr s, False)] | Inl e \<Rightarrow> [])"
  have ob: "ob = \<lparr>kind = KError ''duplicateError'', proto = PIntrinsic (Proto ERROR), props = mp\<rparr>"
    using ne by (auto simp: new_Error_def mp_def split: if_splits sum.splits)
  have sc: "msgv \<noteq> VUndefined \<Longrightarrow> \<exists>s. to_string msgv = Inr s"
    using ne by (auto simp: new_Error_def split: if_splits sum.splits)
  let ?ob' = "\<lparr>kind = KError ''duplicateError'', proto = PIntrinsic (Proto ERROR),
               props = mp @ [(Name ''name'', nm, True)]\<rparr>"
  have pp: "put_prop (Name ''name'') nm mp = mp @ [(Name ''name'', nm, True)]"
    by (rule put_prop_new) (auto simp: mp_def split: sum.splits)
  from run xa gm ne gn have r: "r = VRef (length h)" "h' = h @ [?ob']"
    by (auto simp: duplicateError_def Let_def store_def lookup_def assign_def ob pp
        split: sum.splits prod.splits if_splits)
  have nmv: "val_in {..<length hb} nm" unfolding nm_def using wf lt by (rule base_get)
  have oin: "obj_in {..<length hb} ?ob'"
    using nmv by (auto simp: obj_in_def proto_in_def mp_def val_in_def split: sum.splits)
  have msg: "snapshot d hb (get [?ob'] 0 (Name ''message'')) = copied_message (snapshot d hb msgv)" for d
  proof (cases "msgv = VUndefined")
    case True
    then show ?thesis by (simp add: mp_def get_def copied_message_def)
  next
    case False
    from sc [OF this] obtain s where s: "to_string msgv = Inr s" by blast
    with False to_string_scalar [OF s] show ?thesis
      by (simp add: mp_def get_def copied_message_def)
  qed
  have nmg: "get [?ob'] 0 (Name ''name'') = nm"
    by (auto simp: get_def mp_def split: sum.splits)
  show ?thesis
    unfolding xa r
  proof (rule copies_fresh [OF wf fr lt oin])
    fix d
    show "TNode (map_kind (snapshot d hb) (erase (kind ?ob')))
       (map (\<lambda>k. (k, snapshot d hb (get [?ob'] 0 k))) (canon (enum_keys ?ob')))
       (map (\<lambda>k. snapshot d hb (get [?ob'] 0 k)) (observed (kind ?ob')))
       = dup_tree (snapshot (Suc d) hb (VRef a))"
    proof -
      have ek: "enum_keys ?ob' = [Name ''name'']"
        by (auto simp: enum_keys_def canon_def mp_def split: sum.splits)
      have l: "TNode (map_kind (snapshot d hb) (erase (kind ?ob')))
          (map (\<lambda>k. (k, snapshot d hb (get [?ob'] 0 k))) (canon (enum_keys ?ob')))
          (map (\<lambda>k. snapshot d hb (get [?ob'] 0 k)) (observed (kind ?ob')))
        = TNode (KError []) [(Name ''name'', snapshot d hb nm)]
            [copied_message (snapshot d hb msgv), snapshot d hb nm]"
        unfolding ek by (simp add: canon_def msg nmg)
      have r: "dup_tree (snapshot (Suc d) hb (VRef a))
        = TNode (KError []) [(Name ''name'', snapshot d hb nm)]
            [copied_message (snapshot d hb msgv), snapshot d hb nm]"
        using lt k by (simp add: dup_node_def msgv_def nm_def)
      show ?thesis unfolding l r ..
    qed
  qed simp
qed

lemma contract_duplicateArrayBuffer:
  assumes wf: "wf_heap hb" and fr: "frame hb h" and x: "val_in {..<length hb} x"
    and t: "typeOf h x = ARRAYBUFFER"
    and run: "duplicateArrayBuffer x h = (Inr r, h')"
  shows "copies_to hb h x r h'"
proof -
  from typeOf_ref [OF t] obtain a bs where xa: "x = VRef a" "a < length h" "kind (h ! a) = KArrayBuffer bs"
    by (auto dest: tag_ARRAYBUFFER)
  from x xa have lt: "a < length hb" by (simp add: val_in_def)
  from base_kind [OF fr lt] xa have k: "kind (hb ! a) = KArrayBuffer bs" by simp
  define lv where "lv = get hb a (Name ''length'')"
  have gl: "get h a (Name ''length'') = lv"
    unfolding lv_def using wf fr lt by (rule get_frame)
  from run xa gl obtain n where n: "to_index lv = Inr n" and r: "r = VRef (length h)"
      "h' = h @ [\<lparr>kind = KArrayBuffer (replicate n 0), proto = PIntrinsic (Proto ARRAYBUFFER),
                   props = []\<rparr>]"
    by (auto simp: duplicateArrayBuffer_def fresh_def split: sum.splits)
  have sz: "copied_size (snapshot d hb lv) = n" for d
    using n to_index_scalar [OF n] by (simp add: copied_size_def)
  let ?ob = "\<lparr>kind = KArrayBuffer (replicate n 0), proto = PIntrinsic (Proto ARRAYBUFFER),
              props = []\<rparr>"
  have g: "get [?ob] 0 (Name ''length'') = VUndefined" by (simp add: get_def)
  have rhs: "dup_tree (snapshot (Suc d) hb (VRef a))
     = TNode (KArrayBuffer (replicate n 0)) [] [TLeaf VUndefined]" for d
    using lt k sz [of d] by (simp add: dup_node_def lv_def)
  show ?thesis
    unfolding xa r
  proof (rule copies_fresh [OF wf fr lt])
    fix d
    show "TNode (map_kind (snapshot d hb) (erase (kind ?ob)))
       (map (\<lambda>k. (k, snapshot d hb (get [?ob] 0 k))) (canon (enum_keys ?ob)))
       (map (\<lambda>k. snapshot d hb (get [?ob] 0 k)) (observed (kind ?ob)))
       = dup_tree (snapshot (Suc d) hb (VRef a))"
      unfolding rhs by (simp add: enum_keys_def canon_def g)
  qed (simp_all add: obj_in_no_refs)
qed

lemma tag_PROMISE: "tag_of_kind k = PROMISE \<Longrightarrow> \<exists>st rs hdl. k = KPromise st rs hdl"
  using tag_of_tarray_typed by (cases k rule: tag_of_kind.cases) auto

lemma contract_duplicatePromise:
  assumes wf: "wf_heap hb" and fr: "frame hb h" and x: "val_in {..<length hb} x"
    and t: "typeOf h x = PROMISE"
    and run: "duplicatePromise x h = (Inr r, h')"
  shows "copies_to hb h x r h'"
proof -
  from typeOf_ref [OF t] obtain a st rs hdl
    where xa: "x = VRef a" "a < length h" "kind (h ! a) = KPromise st rs hdl"
    by (auto dest: tag_PROMISE)
  let ?new = "\<lparr>kind = KPromise Pending [] False, proto = PIntrinsic (Proto PROMISE), props = []\<rparr>"
  from run xa have r: "r = VRef (length h)"
    and h': "h' = (h @ [?new])[a := (h ! a)\<lparr>kind := KPromise st
               (if st = Pending then rs @ [VRef (length h)] else rs) True\<rparr>]"
    by (simp_all add: duplicatePromise_def lookup_def Let_def)
  from xa h' have at: "h' ! length h = ?new" and len: "length h' = Suc (length h)"
    by (simp_all add: nth_list_update)
  from x xa have lt: "a < length hb" by (simp add: val_in_def)
  from fr lt have "unchanged (hb ! a) (h ! a)" by (simp add: frame_iff)
  then have "same_slots (kind (hb ! a)) (KPromise st rs hdl)"
    by (simp add: unchanged_def xa)
  then have "\<exists>rs0 hd0. kind (hb ! a) = KPromise st rs0 hd0"
    unfolding same_slots_cases
  proof (elim disjE exE conjE)
    assume "KPromise st rs hdl = kind (hb ! a)"
    then show ?thesis by (intro exI [of _ rs] exI [of _ hdl]) simp
  next
    fix st' rs' hd' rs''
    assume "kind (hb ! a) = KPromise st' rs' hd'" "KPromise st rs hdl = KPromise st' (rs' @ rs'') True"
    then show ?thesis by simp
  qed
  then obtain rs0 hd0 where k: "kind (hb ! a) = KPromise st rs0 hd0" by blast
  have fr': "frame hb h'"
    using fr framingD [OF framing_duplicatePromise run] by (rule frame_trans)
  have rhs: "dup_tree (snapshot (Suc d) hb (VRef a)) = TNode (KPromise Pending [] False) [] []" for d
    using lt k by (simp add: dup_node_def)
  show ?thesis
    unfolding xa r
  proof (rule copies_new [OF wf fr', where i = "Proto PROMISE"])
    show "length hb \<le> length h" using fr by (rule frame_length)
    show "obj_in {..<length hb} (h' ! length h)"
      unfolding at by (rule obj_in_no_refs) simp_all
    fix d
    show "TNode (map_kind (snapshot d hb) (erase (kind (h' ! length h))))
       (map (\<lambda>k. (k, snapshot d hb (get [h' ! length h] 0 k))) (canon (enum_keys (h' ! length h))))
       (map (\<lambda>k. snapshot d hb (get [h' ! length h] 0 k)) (observed (kind (h' ! length h))))
       = dup_tree (snapshot (Suc d) hb (VRef a))"
      unfolding rhs at by (simp add: enum_keys_def canon_def)
  qed (simp_all add: len at)
qed

section \<open>What the copies show: objects and arrays\<close>

lemma frame_then_except:
  "frame hb h \<Longrightarrow> frame_except L h h' \<Longrightarrow> length hb \<le> L \<Longrightarrow> frame hb h'"
proof -
  assume f: "frame hb h" and e: "frame_except L h h'" and l: "length hb \<le> L"
  have "unchanged (hb ! b) (h' ! b)" if b: "b < length hb" for b
  proof -
    from f b have 1: "unchanged (hb ! b) (h ! b)" "b < length h" by (auto simp: frame_iff)
    from b l have "b \<noteq> L" by simp
    with e 1(2) have "unchanged (h ! b) (h' ! b)" by (simp add: frame_except_iff)
    with 1(1) show ?thesis by (rule unchanged_trans)
  qed
  moreover have "length hb \<le> length h'"
    using f e by (auto simp: frame_iff frame_except_iff)
  ultimately show ?thesis by (simp add: frame_iff)
qed

lemma loop_children:
  assumes wf: "wf_heap hb" and fr: "frame hb h" and fr': "frame hb h'" and a: "a < length hb"
    and ct: "contract hb d rec"
    and np: "\<forall>k\<in>set ks. no_proto_key (snapshot d hb (get hb a k))"
    and mb: "list_all2 (made_by rec a (length h) (h @ [ret]) h') ks vs"
  shows "\<exists>R. {..<length hb} \<subseteq> R \<and> R \<subseteq> {..<length hb} \<union> {Suc (length h)..<length h'} \<and>
             closed_on R h' \<and>
             (\<forall>(k, v)\<in>set (zip ks vs). val_in R v \<and>
                  (\<forall>d'. snapshot d' h' v = dup_tree (snapshot d' hb (get hb a k))))"
proof -
  let ?B = "{..<length hb}"
  let ?F = "{R. ?B \<subseteq> R \<and> R \<subseteq> ?B \<union> {Suc (length h)..<length h'} \<and> closed_on R h'}"
  have lb: "length hb \<le> length h" using fr by (rule frame_length)
  have base: "?B \<in> ?F" using base_closed [OF wf fr'] by auto
  have each: "\<exists>R\<in>?F. val_in R v \<and> (\<forall>d'. snapshot d' h' v = dup_tree (snapshot d' hb (get hb a k)))"
    if kv: "(k, v) \<in> set (zip ks vs)" for k v
  proof -
    from kv mb have "made_by rec a (length h) (h @ [ret]) h' k v"
      by (auto simp: list_all2_iff)
    then obtain hi hi' where f1: "frame_except (length h) (h @ [ret]) hi"
      and rec: "rec (get hi a k) hi = (Inr v, hi')" and f2: "frame_except (length h) hi' h'"
      unfolding made_by_def by blast
    have fr0: "frame hb (h @ [ret])" using fr frame_append by (rule frame_trans)
    have fri: "frame hb hi" using fr0 f1 lb by (rule frame_then_except)
    have g: "get hi a k = get hb a k" using wf fri a by (rule get_frame)
    have kin: "k \<in> set ks" using kv by (rule set_zip_leftD)
    from np kin have npk: "no_proto_key (snapshot d hb (get hb a k))" by blast
    from rec g have rec': "rec (get hb a k) hi = (Inr v, hi')" by simp
    have "copies_to hb hi (get hb a k) v hi'"
      using ct [unfolded contract_def, rule_format, OF fri base_get [OF wf a] npk rec'] .
    then obtain R where R: "?B \<subseteq> R" "R \<subseteq> ?B \<union> {length hi..<length hi'}" "closed_on R hi'"
      "val_in R v" and sn: "\<And>d'. snapshot d' hi' v = dup_tree (snapshot d' hb (get hb a k))"
      unfolding copies_to_def by blast
    have li: "Suc (length h) \<le> length hi" using frame_except_length [OF f1] by simp
    have li': "length hi' \<le> length h'" using f2 by (rule frame_except_length)
    have notL: "length h \<notin> R" using R(2) li lb by auto
    have un: "\<forall>b\<in>R. unchanged (hi' ! b) (h' ! b)"
    proof
      fix b assume b: "b \<in> R"
      with R(3) have "b < length hi'" by (simp add: closed_on_def)
      moreover from b notL have "b \<noteq> length h" by auto
      ultimately show "unchanged (hi' ! b) (h' ! b)" using f2 by (simp add: frame_except_iff)
    qed
    have "closed_on R h'" using R(3) un li' by (rule closed_on_unchanged)
    moreover have "R \<subseteq> ?B \<union> {Suc (length h)..<length h'}" using R(2) li li' by auto
    moreover have "snapshot d' h' v = dup_tree (snapshot d' hb (get hb a k))" for d'
      using snapshot_stable [OF R(3) un li' R(4)] sn by simp
    ultimately have "R \<in> ?F" using R(1) by simp
    then show ?thesis using R(4) \<open>\<And>d'. snapshot d' h' v = dup_tree (snapshot d' hb (get hb a k))\<close>
      by (intro bexI [of _ R]) simp_all
  qed
  have cl: "closed_on (\<Union>?F) h'" by (rule closed_on_Union) simp
  show ?thesis
  proof (intro exI [of _ "\<Union>?F"] conjI)
    show "?B \<subseteq> \<Union>?F" using base by (rule Union_upper)
    show "\<Union>?F \<subseteq> ?B \<union> {Suc (length h)..<length h'}" by (rule Union_least) simp
    show "closed_on (\<Union>?F) h'" by (rule cl)
    show "\<forall>(k, v)\<in>set (zip ks vs). val_in (\<Union>?F) v \<and>
            (\<forall>d'. snapshot d' h' v = dup_tree (snapshot d' hb (get hb a k)))"
    proof (clarify, intro conjI allI)
      fix k v assume kv: "(k, v) \<in> set (zip ks vs)"
      from each [OF kv] obtain R where R: "R \<in> ?F" "val_in R v"
        "\<And>d'. snapshot d' h' v = dup_tree (snapshot d' hb (get hb a k))" by blast
      from R(1) have "R \<subseteq> \<Union>?F" by (rule Union_upper)
      then show "val_in (\<Union>?F) v" using R(2) by (rule val_in_mono)
      show "snapshot d' h' v = dup_tree (snapshot d' hb (get hb a k))" for d' by (rule R(3))
    qed
  qed
qed


lemma map_of_own: "map_of (map own kvs) k = map_option (\<lambda>v. (v, True)) (map_of kvs k)"
  by (induction kvs) (auto simp: own_def)

lemma map_fst_own [simp]: "map fst (map own kvs) = map fst kvs"
  by (simp add: own_def comp_def)

lemma container_snapshot:
  assumes L: "L < length h'"
    and at: "h' ! L = \<lparr>kind = K, proto = PIntrinsic i, props = map own (zip ks vs)\<rparr>"
    and K: "bookkeeping K = None" "\<And>t es. K \<noteq> KTypedArray t es" "observed K = []"
    and sl: "\<And>k. k \<in> set ks \<Longrightarrow> own_slot K k = None"
    and len: "length vs = length ks"
    and ch: "\<And>k v. (k, v) \<in> set (zip ks vs) \<Longrightarrow> snapshot d h' v = c k"
  shows "snapshot (Suc d) h' (VRef L) =
           TNode (map_kind (snapshot d h') (erase K)) (map (\<lambda>k. (k, c k)) (canon ks)) []"
proof -
  have pr: "proto (h' ! L) = PIntrinsic i" by (simp add: at)
  have ek: "enum_keys (h' ! L) = canon ks"
    using K(1,2) len by (subst enum_keys_own [where kvs = "zip ks vs"]) (simp_all add: at)
  have g: "snapshot d h' (get [h' ! L] 0 k) = c k" if k: "k \<in> set ks" for k
  proof -
    from k len obtain v where v: "map_of (zip ks vs) k = Some v"
      by (metis map_of_zip_is_Some not_Some_eq)
    then have "(k, v) \<in> set (zip ks vs)" by (rule map_of_SomeD)
    from ch [OF this] show ?thesis
      using sl [OF k] v by (simp add: get_def at map_of_own)
  qed
  show ?thesis
    unfolding snapshot_new [OF L pr] ek
    by (simp add: at K(3) g [unfolded at] cong: map_cong)
qed

lemma container_region:
  assumes R: "closed_on R h'" and L: "L < length h'"
    and at: "h' ! L = \<lparr>kind = K, proto = PIntrinsic i, props = map own (zip ks vs)\<rparr>"
    and K: "set_kind (erase K) = {}"
    and ch: "\<And>k v. (k, v) \<in> set (zip ks vs) \<Longrightarrow> val_in R v"
  shows "closed_on (R \<union> {L}) h'"
proof -
  have "obj_in (R \<union> {L}) (h' ! L)"
    unfolding at obj_in_def
    using K ch by (auto simp: proto_in_def list_all_iff own_def intro: val_in_mono [of R])
  moreover have "obj_in (R \<union> {L}) (h' ! b)" "b < length h'" if "b \<in> R" for b
    using R that by (auto simp: closed_on_def intro: obj_in_mono [of R])
  ultimately show ?thesis using L by (auto simp: closed_on_def)
qed

lemma no_proto_key_children:
  assumes "a < length hb" "is_container (kind (hb ! a))"
    and "no_proto_key (snapshot (Suc d) hb (VRef a))"
  shows "Name ''__proto__'' \<notin> set (for_in hb a)"
    and "\<forall>k\<in>set (for_in hb a). no_proto_key (snapshot d hb (get hb a k))"
proof -
  have c: "is_container (map_kind (snapshot d hb) (erase (kind (hb ! a))))"
    using assms(2) by (cases "kind (hb ! a)") simp_all
  from assms(1,3) c show "Name ''__proto__'' \<notin> set (for_in hb a)"
    by (simp add: comp_def)
  from assms(1,3) c show "\<forall>k\<in>set (for_in hb a). no_proto_key (snapshot d hb (get hb a k))"
    by (simp add: comp_def list_all_iff)
qed

lemma contract_duplicateObject:
  assumes wf: "wf_heap hb" and fr: "frame hb h" and x: "val_in {..<length hb} x"
    and t: "typeOf h x = OBJECT"
    and frm: "framing rec" and ct: "contract hb d rec"
    and np: "no_proto_key (snapshot (Suc d) hb x)"
    and run: "duplicateObject rec x h = (Inr r, h')"
  shows "copies_to hb h x r h'"
proof -
  from typeOf_ref [OF t] obtain a where xa: "x = VRef a" "a < length h" "kind (h ! a) = KObject"
    by (auto dest: tag_OBJECT)
  from x xa have lt: "a < length hb" by (simp add: val_in_def)
  from base_kind [OF fr lt] xa have k: "kind (hb ! a) = KObject" by simp
  let ?ks = "for_in hb a"
  let ?ret = "\<lparr>kind = KObject, proto = PIntrinsic (Proto OBJECT), props = []\<rparr>"
  from np xa k lt have nk: "Name ''__proto__'' \<notin> set ?ks"
    and npc: "\<forall>k\<in>set ?ks. no_proto_key (snapshot d hb (get hb a k))"
    using no_proto_key_children [of a hb d] by simp_all
  from run xa have ci: "copy_into rec a ?ret h = (Inr r, h')"
    by (simp add: duplicateObject_def)
  from copy_into_result [OF frm wf fr lt _ ci]
  obtain vs where r: "r = VRef (length h)" and len: "length h < length h'" and fh: "frame h h'"
    and vs: "length vs = length ?ks" "assigns (zip ?ks vs) ?ret = Inr (h' ! length h)"
    and mb: "list_all2 (made_by rec a (length h) (h @ [?ret]) h') ?ks vs"
    by auto
  have dk: "distinct ?ks" using wf by (rule distinct_for_in)
  have "h' ! length h = ?ret\<lparr>props := props ?ret @ map own (zip ?ks vs)\<rparr>"
    using vs nk dk by (intro assigns_object) (auto dest: set_zip_leftD)
  then have at: "h' ! length h =
      \<lparr>kind = KObject, proto = PIntrinsic (Proto OBJECT), props = map own (zip ?ks vs)\<rparr>"
    by simp
  have fr': "frame hb h'" using fr fh by (rule frame_trans)
  from loop_children [OF wf fr fr' lt ct npc mb]
  obtain R where R: "{..<length hb} \<subseteq> R" "R \<subseteq> {..<length hb} \<union> {Suc (length h)..<length h'}"
    "closed_on R h'"
    and all: "\<forall>(k, v)\<in>set (zip ?ks vs). val_in R v \<and>
       (\<forall>d'. snapshot d' h' v = dup_tree (snapshot d' hb (get hb a k)))"
    by blast
  have ch: "val_in R v" "snapshot d' h' v = dup_tree (snapshot d' hb (get hb a k))"
    if "(k, v) \<in> set (zip ?ks vs)" for k v d'
    using bspec [OF all that] by simp_all
  show ?thesis
    unfolding copies_to_def xa r
  proof (intro conjI allI)
    have "closed_on (R \<union> {length h}) h'"
      using R(3) len at by (rule container_region) (simp_all add: ch)
    then show "\<exists>R. {..<length hb} \<subseteq> R \<and> R \<subseteq> {..<length hb} \<union> {length h..<length h'} \<and>
        closed_on R h' \<and> val_in R (VRef (length h))"
      using R(1,2) len
      by (intro exI [of _ "R \<union> {length h}"]) (auto simp: val_in_def)
    fix d'
    show "snapshot d' h' (VRef (length h)) = dup_tree (snapshot d' hb (VRef a))"
    proof (cases d')
      case 0
      then show ?thesis by simp
    next
      case (Suc e)
      have "snapshot (Suc e) h' (VRef (length h)) =
          TNode (map_kind (snapshot e h') (erase KObject))
            (map (\<lambda>k. (k, dup_tree (snapshot e hb (get hb a k)))) (canon ?ks)) []"
        using len at _ _ _ _ vs(1)
        by (rule container_snapshot) (simp_all add: ch)
      then show ?thesis
        unfolding Suc using lt k by (simp add: dup_node_def comp_def)
    qed
  qed
qed


lemma array_len_Max: "array_len n ks = Max (insert n (Suc ` set (idxs ks)))"
proof (induction n ks rule: array_len.induct)
  case (2 n i ks)
  have "Max (insert (max n (Suc i)) (Suc ` set (idxs ks)))
      = Max (insert n (insert (Suc i) (Suc ` set (idxs ks))))"
    by (cases "Suc ` set (idxs ks) = {}") (auto simp: max.assoc max.left_commute)
  with 2 show ?case by simp
qed simp_all

lemma array_len_canon: "array_len n (canon ks) = array_len n ks"
  by (simp add: array_len_Max canon_def)

lemma own_slot_array: "own_slot (KArray m) k = None \<longleftrightarrow> k \<noteq> Name ''length''"
  by (cases k) auto

lemma assigns_array_keys:
  "assigns kvs ob = Inr ob' \<Longrightarrow> kind ob = KArray n \<Longrightarrow> Name ''__proto__'' \<notin> fst ` set kvs
   \<Longrightarrow> Name ''length'' \<notin> fst ` set kvs"
proof (induction kvs arbitrary: ob n)
  case Nil
  then show ?case by simp
next
  case (Cons kv kvs)
  obtain k v where kv: "kv = (k, v)" by (cases kv)
  from Cons.prems(1) kv obtain ob1 where a: "assign k v ob = Inr ob1" and r: "assigns kvs ob1 = Inr ob'"
    by (auto split: sum.splits)
  from a Cons.prems(2,3) kv have "k \<noteq> Name ''length''" and "\<exists>m. kind ob1 = KArray m"
    by (auto simp: assign_def split: pkey.splits if_splits)
  with Cons.IH [OF r] Cons.prems(3) kv show ?case by auto
qed

lemma contract_duplicateArray:
  assumes wf: "wf_heap hb" and fr: "frame hb h" and x: "val_in {..<length hb} x"
    and t: "typeOf h x = ARRAY"
    and frm: "framing rec" and ct: "contract hb d rec"
    and np: "no_proto_key (snapshot (Suc d) hb x)"
    and run: "duplicateArray rec x h = (Inr r, h')"
  shows "copies_to hb h x r h'"
proof -
  from typeOf_ref [OF t] obtain a n where xa: "x = VRef a" "a < length h" "kind (h ! a) = KArray n"
    by (auto dest: tag_ARRAY)
  from x xa have lt: "a < length hb" by (simp add: val_in_def)
  from base_kind [OF fr lt] xa have k: "kind (hb ! a) = KArray n" by simp
  let ?ks = "for_in hb a"
  let ?ret = "\<lparr>kind = KArray 0, proto = PIntrinsic (Proto ARRAY), props = []\<rparr>"
  let ?m = "array_len 0 ?ks"
  from np xa k lt have nk: "Name ''__proto__'' \<notin> set ?ks"
    and npc: "\<forall>k\<in>set ?ks. no_proto_key (snapshot d hb (get hb a k))"
    using no_proto_key_children [of a hb d] by simp_all
  from run xa have ci: "copy_into rec a ?ret h = (Inr r, h')"
    by (simp add: duplicateArray_def)
  from copy_into_result [OF frm wf fr lt _ ci]
  obtain vs where r: "r = VRef (length h)" and len: "length h < length h'" and fh: "frame h h'"
    and vs: "length vs = length ?ks" "assigns (zip ?ks vs) ?ret = Inr (h' ! length h)"
    and mb: "list_all2 (made_by rec a (length h) (h @ [?ret]) h') ?ks vs"
    by auto
  have dk: "distinct ?ks" using wf by (rule distinct_for_in)
  have fz: "fst ` set (zip ?ks vs) = set ?ks"
    using vs(1) by (metis map_fst_zip set_map)
  have "h' ! length h = ?ret\<lparr>kind := KArray (array_len 0 (map fst (zip ?ks vs))),
      props := props ?ret @ map own (zip ?ks vs)\<rparr>"
    using vs(2) _ _ _ _ by (rule assigns_array) (use vs(1) nk dk fz in simp_all)
  then have at: "h' ! length h =
      \<lparr>kind = KArray ?m, proto = PIntrinsic (Proto ARRAY), props = map own (zip ?ks vs)\<rparr>"
    using vs(1) by simp
  have nl: "Name ''length'' \<notin> set ?ks"
    using assigns_array_keys [OF vs(2)] nk fz by simp
  have fr': "frame hb h'" using fr fh by (rule frame_trans)
  from loop_children [OF wf fr fr' lt ct npc mb]
  obtain R where R: "{..<length hb} \<subseteq> R" "R \<subseteq> {..<length hb} \<union> {Suc (length h)..<length h'}"
    "closed_on R h'"
    and all: "\<forall>(k, v)\<in>set (zip ?ks vs). val_in R v \<and>
       (\<forall>d'. snapshot d' h' v = dup_tree (snapshot d' hb (get hb a k)))"
    by blast
  have ch: "val_in R v" "snapshot d' h' v = dup_tree (snapshot d' hb (get hb a k))"
    if "(k, v) \<in> set (zip ?ks vs)" for k v d'
    using bspec [OF all that] by simp_all
  have sl: "own_slot (KArray ?m) k = None" if "k \<in> set ?ks" for k
    using that nl by (auto simp: own_slot_array)
  show ?thesis
    unfolding copies_to_def xa r
  proof (intro conjI allI)
    have "closed_on (R \<union> {length h}) h'"
      using R(3) len at by (rule container_region) (simp_all add: ch)
    then show "\<exists>R. {..<length hb} \<subseteq> R \<and> R \<subseteq> {..<length hb} \<union> {length h..<length h'} \<and>
        closed_on R h' \<and> val_in R (VRef (length h))"
      using R(1,2) len
      by (intro exI [of _ "R \<union> {length h}"]) (auto simp: val_in_def)
    fix d'
    show "snapshot d' h' (VRef (length h)) = dup_tree (snapshot d' hb (VRef a))"
    proof (cases d')
      case 0
      then show ?thesis by simp
    next
      case (Suc e)
      have "snapshot (Suc e) h' (VRef (length h)) =
          TNode (map_kind (snapshot e h') (erase (KArray ?m)))
            (map (\<lambda>k. (k, dup_tree (snapshot e hb (get hb a k)))) (canon ?ks)) []"
        using len at _ _ _ sl vs(1)
        by (rule container_snapshot) (simp_all add: ch)
      then show ?thesis
        unfolding Suc using lt k by (simp add: dup_node_def comp_def array_len_canon)
    qed
  qed
qed

section \<open>What the copies show: typed arrays\<close>

lemma names_filter: "names ks = filter is_name ks"
  by (induction ks rule: names.induct) auto

lemma assign_typed_cases:
  assumes "assign k v ob = Inr ob1" "kind ob = KTypedArray t zs" "k \<noteq> Name ''__proto__''"
    "k \<notin> fst ` set (props ob)"
  shows "(\<exists>i x. k = Idx i \<and> i < length zs \<and> v = VNum x \<and> ob1 = ob\<lparr>kind := KTypedArray t (zs[i := x])\<rparr>)
       \<or> (\<exists>i. k = Idx i \<and> \<not> i < length zs \<and> ob1 = ob)
       \<or> (\<exists>s. k = Name s \<and> ob1 = ob\<lparr>props := props ob @ [(k, v, True)]\<rparr>)"
  using assms
  by (cases k) (auto simp: assign_def put_prop_new split: if_splits val.splits)

lemma assigns_typed:
  "assigns kvs ob = Inr ob' \<Longrightarrow> kind ob = KTypedArray t zs \<Longrightarrow> Name ''__proto__'' \<notin> fst ` set kvs
   \<Longrightarrow> distinct (map fst kvs) \<Longrightarrow> fst ` set kvs \<inter> fst ` set (props ob) = {}
   \<Longrightarrow> \<exists>zs'. length zs' = length zs \<and>
         ob' = ob\<lparr>kind := KTypedArray t zs',
                  props := props ob @ map own (filter (\<lambda>kv. is_name (fst kv)) kvs)\<rparr> \<and>
         (\<forall>i<length zs. (\<forall>v. (Idx i, v) \<in> set kvs \<longrightarrow> v = VNum (zs' ! i)) \<and>
                          (Idx i \<notin> fst ` set kvs \<longrightarrow> zs' ! i = zs ! i))"
proof (induction kvs arbitrary: ob zs)
  case Nil
  then have "ob' = ob\<lparr>kind := KTypedArray t zs\<rparr>" by (cases ob) auto
  then show ?case by (intro exI [of _ zs]) simp
next
  case (Cons kv kvs)
  obtain k v where kv: "kv = (k, v)" by (cases kv)
  from Cons.prems(1) kv obtain ob1 where a: "assign k v ob = Inr ob1" and r: "assigns kvs ob1 = Inr ob'"
    by (auto split: sum.splits)
  have kp: "k \<noteq> Name ''__proto__''" "k \<notin> fst ` set (props ob)" "k \<notin> fst ` set kvs"
    using Cons.prems(3,4,5) kv by auto
  have rest: "Name ''__proto__'' \<notin> fst ` set kvs" "distinct (map fst kvs)"
    "fst ` set kvs \<inter> fst ` set (props ob) = {}"
    using Cons.prems(3,4,5) by auto
  from assign_typed_cases [OF a Cons.prems(2) kp(1,2)]
  consider (stored) i x where "k = Idx i" "i < length zs" "v = VNum x"
      "ob1 = ob\<lparr>kind := KTypedArray t (zs[i := x])\<rparr>"
    | (dropped) i where "k = Idx i" "\<not> i < length zs" "ob1 = ob"
    | (named) s where "k = Name s" "ob1 = ob\<lparr>props := props ob @ [(k, v, True)]\<rparr>"
    by blast
  then show ?case
  proof cases
    case stored
    have "\<exists>zs'. length zs' = length (zs[i := x]) \<and>
         ob' = ob1\<lparr>kind := KTypedArray t zs',
                  props := props ob1 @ map own (filter (\<lambda>kv. is_name (fst kv)) kvs)\<rparr> \<and>
         (\<forall>j<length (zs[i := x]). (\<forall>v. (Idx j, v) \<in> set kvs \<longrightarrow> v = VNum (zs' ! j)) \<and>
                          (Idx j \<notin> fst ` set kvs \<longrightarrow> zs' ! j = zs[i := x] ! j))"
      using rest stored by (intro Cons.IH [OF r]) simp_all
    then obtain zs' where z: "length zs' = length zs"
      "ob' = ob1\<lparr>kind := KTypedArray t zs',
                  props := props ob1 @ map own (filter (\<lambda>kv. is_name (fst kv)) kvs)\<rparr>"
      and el: "\<And>j. j < length zs \<Longrightarrow> (\<forall>v. (Idx j, v) \<in> set kvs \<longrightarrow> v = VNum (zs' ! j)) \<and>
                          (Idx j \<notin> fst ` set kvs \<longrightarrow> zs' ! j = zs[i := x] ! j)"
      by auto
    have zi: "zs' ! i = x" using el [OF stored(2)] kp(3) stored(1,2) by simp
    show ?thesis
    proof (intro exI [of _ zs'] conjI allI impI)
      show "length zs' = length zs" by (rule z(1))
      show "ob' = ob\<lparr>kind := KTypedArray t zs',
          props := props ob @ map own (filter (\<lambda>kv. is_name (fst kv)) (kv # kvs))\<rparr>"
        using z(2) stored kv by simp
    next
      fix j w assume j: "j < length zs" and m: "(Idx j, w) \<in> set (kv # kvs)"
      show "w = VNum (zs' ! j)"
      proof (cases "(Idx j, w) = kv")
        case True
        with kv stored zi show ?thesis by simp
      next
        case False
        with m el [OF j] show ?thesis by simp
      qed
    next
      fix j assume j: "j < length zs" and m: "Idx j \<notin> fst ` set (kv # kvs)"
      then have "j \<noteq> i" "Idx j \<notin> fst ` set kvs" using kv stored(1) by auto
      with el [OF j] show "zs' ! j = zs ! j" by simp
    qed
  next
    case dropped
    have "\<exists>zs'. length zs' = length zs \<and>
         ob' = ob1\<lparr>kind := KTypedArray t zs',
                  props := props ob1 @ map own (filter (\<lambda>kv. is_name (fst kv)) kvs)\<rparr> \<and>
         (\<forall>j<length zs. (\<forall>v. (Idx j, v) \<in> set kvs \<longrightarrow> v = VNum (zs' ! j)) \<and>
                          (Idx j \<notin> fst ` set kvs \<longrightarrow> zs' ! j = zs ! j))"
      using rest dropped Cons.prems(2) by (intro Cons.IH [OF r]) simp_all
    then obtain zs' where z: "length zs' = length zs"
      "ob' = ob1\<lparr>kind := KTypedArray t zs',
                  props := props ob1 @ map own (filter (\<lambda>kv. is_name (fst kv)) kvs)\<rparr>"
      and el: "\<And>j. j < length zs \<Longrightarrow> (\<forall>v. (Idx j, v) \<in> set kvs \<longrightarrow> v = VNum (zs' ! j)) \<and>
                          (Idx j \<notin> fst ` set kvs \<longrightarrow> zs' ! j = zs ! j)"
      by auto
    show ?thesis
    proof (intro exI [of _ zs'] conjI allI impI)
      show "length zs' = length zs" by (rule z(1))
      show "ob' = ob\<lparr>kind := KTypedArray t zs',
          props := props ob @ map own (filter (\<lambda>kv. is_name (fst kv)) (kv # kvs))\<rparr>"
        using z(2) dropped kv by simp
    next
      fix j w assume j: "j < length zs" and m: "(Idx j, w) \<in> set (kv # kvs)"
      with kv dropped have "(Idx j, w) \<in> set kvs" by auto
      with el [OF j] show "w = VNum (zs' ! j)" by simp
    next
      fix j assume j: "j < length zs" and m: "Idx j \<notin> fst ` set (kv # kvs)"
      then have "Idx j \<notin> fst ` set kvs" by auto
      with el [OF j] show "zs' ! j = zs ! j" by simp
    qed
  next
    case named
    have "\<exists>zs'. length zs' = length zs \<and>
         ob' = ob1\<lparr>kind := KTypedArray t zs',
                  props := props ob1 @ map own (filter (\<lambda>kv. is_name (fst kv)) kvs)\<rparr> \<and>
         (\<forall>j<length zs. (\<forall>v. (Idx j, v) \<in> set kvs \<longrightarrow> v = VNum (zs' ! j)) \<and>
                          (Idx j \<notin> fst ` set kvs \<longrightarrow> zs' ! j = zs ! j))"
      using rest named Cons.prems(2) kp(3) by (intro Cons.IH [OF r]) auto
    then obtain zs' where z: "length zs' = length zs"
      "ob' = ob1\<lparr>kind := KTypedArray t zs',
                  props := props ob1 @ map own (filter (\<lambda>kv. is_name (fst kv)) kvs)\<rparr>"
      and el: "\<And>j. j < length zs \<Longrightarrow> (\<forall>v. (Idx j, v) \<in> set kvs \<longrightarrow> v = VNum (zs' ! j)) \<and>
                          (Idx j \<notin> fst ` set kvs \<longrightarrow> zs' ! j = zs ! j)"
      by auto
    show ?thesis
    proof (intro exI [of _ zs'] conjI allI impI)
      show "length zs' = length zs" by (rule z(1))
      show "ob' = ob\<lparr>kind := KTypedArray t zs',
          props := props ob @ map own (filter (\<lambda>kv. is_name (fst kv)) (kv # kvs))\<rparr>"
        using z(2) named kv by (simp add: own_def)
    next
      fix j w assume j: "j < length zs" and m: "(Idx j, w) \<in> set (kv # kvs)"
      with kv named have "(Idx j, w) \<in> set kvs" by auto
      with el [OF j] show "w = VNum (zs' ! j)" by simp
    next
      fix j assume j: "j < length zs" and m: "Idx j \<notin> fst ` set (kv # kvs)"
      then have "Idx j \<notin> fst ` set kvs" by auto
      with el [OF j] show "zs' ! j = zs ! j" by simp
    qed
  qed
qed


lemma for_in_typed:
  assumes wf: "wf_heap hb" and a: "a < length hb" and k: "kind (hb ! a) = KTypedArray t es"
  shows "\<exists>rest. for_in hb a = map Idx [0..<length es] @ rest \<and> (\<forall>i<length es. Idx i \<notin> set rest)"
proof -
  let ?inh = "for_in_from [a] hb (proto (hb ! a)) (shadow_keys (hb ! a))"
  let ?nm = "names (map fst (filter (\<lambda>(k, v, e). e) (props (hb ! a))))"
  have f: "for_in hb a = map Idx [0..<length es] @ ?nm @ ?inh"
    using a k by (simp add: for_in_def enum_keys_def)
  have "set ?inh \<inter> set (shadow_keys (hb ! a)) = {}"
    using for_in_from_distinct [of hb "[a]" "proto (hb ! a)" "shadow_keys (hb ! a)"] wf
    by (simp add: wf_heap_distinct)
  moreover have "Idx i \<in> set (shadow_keys (hb ! a))" if "i < length es" for i
    using that k by (simp add: shadow_keys_def)
  ultimately have "Idx i \<notin> set ?inh" if "i < length es" for i using that by blast
  then have "\<forall>i<length es. Idx i \<notin> set (?nm @ ?inh)" by (auto simp: set_names)
  with f show ?thesis by blast
qed

lemma get_typed:
  "a < length hb \<Longrightarrow> kind (hb ! a) = KTypedArray t es \<Longrightarrow> i < length es
   \<Longrightarrow> get hb a (Idx i) = VNum (es ! i)"
  by (simp add: get_def)

lemma snapshot_0_leaf: "snapshot 0 h v = TLeaf w \<Longrightarrow> v = w"
  by (cases v) (auto split: if_splits)

lemma filter_in_range_Idx: "filter (in_range n) (map Idx xs) = map Idx (filter (\<lambda>i. i < n) xs)"
  by (induction xs) auto

lemma filter_in_range_names: "filter (in_range n) (names ks) = names ks"
  by (induction ks rule: names.induct) auto

lemma filter_small_idxs: "\<forall>i<n. Idx i \<notin> set rest \<Longrightarrow> filter (\<lambda>i. i < n) (idxs rest) = []"
  by (induction rest rule: idxs.induct) auto

lemma canon_typed:
  assumes "ks = map Idx [0..<n] @ rest" "\<forall>i<n. Idx i \<notin> set rest"
  shows "filter (in_range n) (canon ks) = map Idx [0..<n] @ names ks"
proof -
  have "filter (\<lambda>i. i < n) (sort (idxs ks)) = sort (filter (\<lambda>i. i < n) (idxs ks))"
    by (rule filter_sort)
  also have "filter (\<lambda>i. i < n) (idxs ks) = [0..<n]"
    using assms by (simp add: filter_small_idxs)
  also have "sort [0..<n] = [0..<n]" by (simp add: sorted_sort_id)
  finally show ?thesis
    by (simp add: canon_def filter_in_range_Idx filter_in_range_names)
qed

lemma map_fst_filter_names:
  "map fst (filter (\<lambda>kv. is_name (fst kv)) kvs) = names (map fst kvs)"
  by (induction kvs) (auto simp: names_filter)

lemma map_of_filter_names:
  "map_of (filter (\<lambda>kv. is_name (fst kv)) kvs) (Name s) = map_of kvs (Name s)"
  by (induction kvs) auto

lemma enum_keys_typed:
  "kind ob = KTypedArray t es \<Longrightarrow> props ob = map own kvs \<Longrightarrow>
   enum_keys ob = map Idx [0..<length es] @ names (map fst kvs)"
  by (simp add: enum_keys_def own_def filter_map comp_def)


lemma contract_duplicateTypedArray:
  assumes wf: "wf_heap hb" and fr: "frame hb h" and x: "val_in {..<length hb} x"
    and t: "typeOf h x = tag_of_tarray c"
    and frm: "framing rec" and ct: "contract hb d rec"
    and np: "no_proto_key (snapshot (Suc d) hb x)"
    and run: "duplicateTypedArray c rec x h = (Inr r, h')"
  shows "copies_to hb h x r h'"
proof -
  have "tag_of_tarray c \<notin> {STRING, NUMBER, BOOLEAN, NULL, UNDEFINED, SYMBOL, UNLISTED []}"
    using tag_of_tarray_typed [of c] tag_of_tarray_listed [where t = c] by auto
  from typeOf_ref [OF t this] obtain a es
    where xa: "x = VRef a" "a < length h" "kind (h ! a) = KTypedArray c es"
    by (auto dest: tag_typed)
  from x xa have lt: "a < length hb" by (simp add: val_in_def)
  from base_kind [OF fr lt] xa have k: "kind (hb ! a) = KTypedArray c es" by simp
  let ?ks = "for_in hb a"
  let ?n = "length es"
  let ?ret = "\<lparr>kind = KTypedArray c (replicate ?n 0),
                proto = PIntrinsic (Proto (tag_of_tarray c)), props = []\<rparr>"
  from np xa k lt have nk: "Name ''__proto__'' \<notin> set ?ks"
    and npc: "\<forall>k\<in>set ?ks. no_proto_key (snapshot d hb (get hb a k))"
    using no_proto_key_children [of a hb d] by simp_all
  from run xa have ci: "copy_into rec a ?ret h = (Inr r, h')"
    by (simp add: duplicateTypedArray_def kind_of_def lookup_def)
  from copy_into_result [OF frm wf fr lt _ ci]
  obtain vs where r: "r = VRef (length h)" and len: "length h < length h'" and fh: "frame h h'"
    and vs: "length vs = length ?ks" "assigns (zip ?ks vs) ?ret = Inr (h' ! length h)"
    and mb: "list_all2 (made_by rec a (length h) (h @ [?ret]) h') ?ks vs"
    by auto
  have dk: "distinct ?ks" using wf by (rule distinct_for_in)
  have mz: "map fst (zip ?ks vs) = ?ks" using vs(1) by simp
  have fz: "fst ` set (zip ?ks vs) = set ?ks"
    using vs(1) by (metis map_fst_zip set_map)
  from for_in_typed [OF wf lt k] obtain rest
    where ks: "?ks = map Idx [0..<?n] @ rest" and rest: "\<forall>i<?n. Idx i \<notin> set rest"
    by blast
  have idx_in: "Idx i \<in> set ?ks" if "i < ?n" for i
    using that by (subst ks) simp
  have fr': "frame hb h'" using fr fh by (rule frame_trans)
  from loop_children [OF wf fr fr' lt ct npc mb]
  obtain R where R: "{..<length hb} \<subseteq> R" "R \<subseteq> {..<length hb} \<union> {Suc (length h)..<length h'}"
    "closed_on R h'"
    and all: "\<forall>(k, v)\<in>set (zip ?ks vs). val_in R v \<and>
       (\<forall>d'. snapshot d' h' v = dup_tree (snapshot d' hb (get hb a k)))"
    by blast
  have ch: "val_in R v" "snapshot d' h' v = dup_tree (snapshot d' hb (get hb a k))"
    if "(k, v) \<in> set (zip ?ks vs)" for k v d'
    using bspec [OF all that] by simp_all
  from assigns_typed [OF vs(2), of c "replicate ?n 0"] nk dk mz fz
  obtain zs where zl: "length zs = ?n"
    and at0: "h' ! length h = ?ret\<lparr>kind := KTypedArray c zs,
        props := props ?ret @ map own (filter (\<lambda>kv. is_name (fst kv)) (zip ?ks vs))\<rparr>"
    and el: "\<And>i v. i < ?n \<Longrightarrow> (Idx i, v) \<in> set (zip ?ks vs) \<Longrightarrow> v = VNum (zs ! i)"
    by auto
  have "zs ! i = es ! i" if i: "i < ?n" for i
  proof -
    from idx_in [OF i] fz obtain v where v: "(Idx i, v) \<in> set (zip ?ks vs)" by force
    from ch(2) [OF v, of 0] have "snapshot 0 h' v = TLeaf (VNum (es ! i))"
      using get_typed [OF lt k i] by simp
    then have "v = VNum (es ! i)" by (rule snapshot_0_leaf)
    with el [OF i v] show ?thesis by simp
  qed
  with zl have zs: "zs = es" by (intro nth_equalityI) simp_all
  let ?nps = "filter (\<lambda>kv. is_name (fst kv)) (zip ?ks vs)"
  have at: "h' ! length h =
      \<lparr>kind = KTypedArray c es, proto = PIntrinsic (Proto (tag_of_tarray c)), props = map own ?nps\<rparr>"
    using at0 zs by simp
  have sub: "set ?nps \<subseteq> set (zip ?ks vs)" by auto
  show ?thesis
    unfolding copies_to_def xa r
  proof (intro conjI allI)
    have "obj_in (R \<union> {length h}) (h' ! length h)"
      unfolding at obj_in_def
      using ch(1) sub by (auto simp: proto_in_def list_all_iff own_def intro: val_in_mono [of R])
    moreover have "obj_in (R \<union> {length h}) (h' ! b)" "b < length h'" if "b \<in> R" for b
      using R(3) that by (auto simp: closed_on_def intro: obj_in_mono [of R])
    ultimately have "closed_on (R \<union> {length h}) h'" using len by (auto simp: closed_on_def)
    then show "\<exists>R. {..<length hb} \<subseteq> R \<and> R \<subseteq> {..<length hb} \<union> {length h..<length h'} \<and>
        closed_on R h' \<and> val_in R (VRef (length h))"
      using R(1,2) len
      by (intro exI [of _ "R \<union> {length h}"]) (auto simp: val_in_def)
    fix d'
    show "snapshot d' h' (VRef (length h)) = dup_tree (snapshot d' hb (VRef a))"
    proof (cases d')
      case 0
      then show ?thesis by simp
    next
      case (Suc e)
      let ?c = "\<lambda>k. dup_tree (snapshot e hb (get hb a k))"
      let ?shown = "map Idx [0..<?n] @ names ?ks"
      have pr: "proto (h' ! length h) = PIntrinsic (Proto (tag_of_tarray c))" by (simp add: at)
      have ek: "enum_keys (h' ! length h) = ?shown"
        using enum_keys_typed [of "h' ! length h" c es ?nps]
        by (simp add: at map_fst_filter_names mz)
      have cn: "canon ?shown = ?shown"
        by (simp add: canon_def sorted_sort_id)
      have g: "snapshot e h' (get [h' ! length h] 0 k) = ?c k" if kin: "k \<in> set ?shown" for k
      proof (cases k)
        case (Idx i)
        with kin have i: "i < ?n" by (auto simp: set_names)
        then show ?thesis
          using Idx get_typed [OF lt k i] by (simp add: at get_def)
      next
        case (Name s)
        with kin have "Name s \<in> set ?ks" by (auto simp: set_names)
        with vs(1) obtain v where v: "map_of (zip ?ks vs) (Name s) = Some v"
          by (metis map_of_zip_is_Some not_Some_eq)
        then have "(Name s, v) \<in> set (zip ?ks vs)" by (rule map_of_SomeD)
        from ch(2) [OF this] show ?thesis
          using Name v by (simp add: at get_def map_of_own map_of_filter_names)
      qed
      have l: "snapshot (Suc e) h' (VRef (length h)) =
          TNode (KTypedArray c es) (map (\<lambda>k. (k, ?c k)) ?shown) []"
        unfolding snapshot_new [OF len pr] ek cn
        using g by (simp add: at cong: map_cong)
      have f: "filter (\<lambda>(k, c'). in_range ?n k) (map (\<lambda>k. (k, ?c k)) (canon ?ks))
          = map (\<lambda>k. (k, ?c k)) (filter (in_range ?n) (canon ?ks))"
        by (simp add: filter_map comp_def)
      have rr: "dup_tree (snapshot (Suc e) hb (VRef a)) =
          TNode (KTypedArray c es) (map (\<lambda>k. (k, ?c k)) ?shown) []"
        using lt k canon_typed [OF ks rest] f
        by (simp add: dup_node_def comp_def)
      show ?thesis unfolding Suc l rr ..
    qed
  qed
qed

section \<open>What the copy of a value shows\<close>

lemma contract_step:
  assumes wf: "wf_heap hb" and ct: "contract hb n (nested n)"
  shows "contract hb (Suc n) (duplicate n)"
  unfolding contract_def
proof (intro allI impI)
  fix x h r h'
  assume fr: "frame hb h" and x: "val_in {..<length hb} x"
    and np: "no_proto_key (snapshot (Suc n) hb x)"
    and run: "duplicate n x h = (Inr r, h')"
  note frm = framing_nested [of n]
  note c = wf fr x
  from run have d: "case strategies (nested n) (typeOf h x) of
       None \<Rightarrow> False | Some f \<Rightarrow> f x h = (Inr r, h')"
    by (auto simp: duplicate_def table_nested dispatch_def split: option.splits)
  show "copies_to hb h x r h'"
  proof (cases "typeOf h x")
    case STRING with d c show ?thesis using contract_identity [OF c] by (auto simp: strategies_def identity_def)
  next
    case NUMBER with d c show ?thesis using contract_identity [OF c] by (auto simp: strategies_def identity_def)
  next
    case BOOLEAN with d c show ?thesis using contract_identity [OF c] by (auto simp: strategies_def identity_def)
  next
    case NULL with d c show ?thesis using contract_identity [OF c] by (auto simp: strategies_def identity_def)
  next
    case UNDEFINED with d c show ?thesis using contract_identity [OF c] by (auto simp: strategies_def identity_def)
  next
    case SYMBOL with d c show ?thesis using contract_identity [OF c] by (auto simp: strategies_def identity_def)
  next
    case MATH with d c show ?thesis using contract_identity [OF c] by (auto simp: strategies_def identity_def)
  next
    case JSON with d c show ?thesis using contract_identity [OF c] by (auto simp: strategies_def identity_def)
  next
    case GENERATOR with d c show ?thesis using contract_identity [OF c] by (auto simp: strategies_def identity_def)
  next
    case WASM with d c show ?thesis using contract_identity [OF c] by (auto simp: strategies_def identity_def)
  next
    case FUNCTION with d show ?thesis using contract_duplicateFunction [OF c] by (simp add: strategies_def)
  next
    case GENERATORFUNC with d show ?thesis using contract_duplicateFunction [OF c] by (simp add: strategies_def)
  next
    case ASYNCFUNC with d show ?thesis using contract_duplicateFunction [OF c] by (simp add: strategies_def)
  next
    case ERROR with d show ?thesis using contract_duplicateError [OF c] by (simp add: strategies_def)
  next
    case REGEXP with d show ?thesis using contract_duplicateRegExp [OF c] by (simp add: strategies_def)
  next
    case DATE with d show ?thesis using contract_duplicateDate [OF c] by (simp add: strategies_def)
  next
    case OBJECT with d show ?thesis
      using contract_duplicateObject [OF c _ frm ct np] by (simp add: strategies_def)
  next
    case ARRAY with d show ?thesis
      using contract_duplicateArray [OF c _ frm ct np] by (simp add: strategies_def)
  next
    case MAP with d show ?thesis using contract_duplicateMapType [OF c] by (simp add: strategies_def)
  next
    case WEAKMAP with d show ?thesis using weak_never(1) [of x h r h'] by (simp add: strategies_def)
  next
    case SET with d show ?thesis using contract_duplicateSetType [OF c] by (simp add: strategies_def)
  next
    case WEAKSET with d show ?thesis using weak_never(2) [of x h r h'] by (simp add: strategies_def)
  next
    case PROMISE with d show ?thesis using contract_duplicatePromise [OF c] by (simp add: strategies_def)
  next
    case INT8ARRAY with d show ?thesis
      using contract_duplicateTypedArray [OF c _ frm ct np, of Int8] by (simp add: strategies_def)
  next
    case UINT8ARRAY with d show ?thesis
      using contract_duplicateTypedArray [OF c _ frm ct np, of Uint8] by (simp add: strategies_def)
  next
    case UINT8CLAMPEDARRAY with d show ?thesis
      using contract_duplicateTypedArray [OF c _ frm ct np, of Uint8Clamped] by (simp add: strategies_def)
  next
    case INT16ARRAY with d show ?thesis
      using contract_duplicateTypedArray [OF c _ frm ct np, of Int16] by (simp add: strategies_def)
  next
    case UINT16ARRAY with d show ?thesis
      using contract_duplicateTypedArray [OF c _ frm ct np, of Uint16] by (simp add: strategies_def)
  next
    case INT32ARRAY with d show ?thesis
      using contract_duplicateTypedArray [OF c _ frm ct np, of Int32] by (simp add: strategies_def)
  next
    case UINT32ARRAY with d show ?thesis
      using contract_duplicateTypedArray [OF c _ frm ct np, of Uint32] by (simp add: strategies_def)
  next
    case FLOAT32ARRAY with d show ?thesis
      using contract_duplicateTypedArray [OF c _ frm ct np, of Float32] by (simp add: strategies_def)
  next
    case FLOAT64ARRAY with d show ?thesis
      using contract_duplicateTypedArray [OF c _ frm ct np, of Float64] by (simp add: strategies_def)
  next
    case ARRAYBUFFER with d show ?thesis using contract_duplicateArrayBuffer [OF c] by (simp add: strategies_def)
  next
    case DATAVIEW with d show ?thesis using contract_duplicateDataView [OF c] by (simp add: strategies_def)
  next
    case (UNLISTED s) with d show ?thesis by (simp add: strategies_def)
  qed
qed

lemma contract_nested: "wf_heap hb \<Longrightarrow> contract hb n (nested n)"
proof (induction n)
  case 0
  then show ?case by (simp add: contract_def)
next
  case (Suc n)
  then show ?case using contract_step [of hb n] by simp
qed

lemma contract_duplicate: "wf_heap hb \<Longrightarrow> contract hb (Suc n) (duplicate n)"
  by (rule contract_step) (simp_all add: contract_nested)

text \<open>The copy of a value of the heap, called in that heap.\<close>

lemma duplicate_shows:
  assumes "wf_heap h" "val_in {..<length h} x" "no_proto_key (snapshot (Suc n) h x)"
    and "duplicate n x h = (Inr r, h')"
  shows "snapshot d h' r = dup_tree (snapshot d h x)"
  using contract_duplicate [OF assms(1), of n, unfolded contract_def, rule_format,
      OF frame_refl assms(2,3,4)]
  by (simp add: copies_to_def)

section \<open>Plain data\<close>


lemma dup_tree_plain: "plain t \<Longrightarrow> dup_tree t = t"
proof (induction t)
  case (TNode kd ps obs)
  have "map (map_prod id dup_tree) ps = ps"
  proof (rule map_idI)
    fix p assume p: "p \<in> set ps"
    obtain k c where kc: "p = (k, c)" by (cases p)
    with p TNode.prems have "plain c" by (auto simp: list_all_iff)
    moreover from p kc have "c \<in> Basic_BNFs.snds p" "p \<in> set ps" by simp_all
    ultimately have "dup_tree c = c" using TNode.IH(2) by blast
    with kc show "map_prod id dup_tree p = p" by simp
  qed
  with TNode.prems show ?case
    by (auto simp: plain_node_def dup_node_def split: kind.splits)
qed simp_all

lemma plain_no_proto_key: "plain t \<Longrightarrow> no_proto_key t"
proof (induction t)
  case (TNode kd ps obs)
  have "list_all snd (map (map_prod id no_proto_key) ps)"
    unfolding list_all_iff
  proof
    fix q assume "q \<in> set (map (map_prod id no_proto_key) ps)"
    then obtain p where p: "p \<in> set ps" and q: "q = map_prod id no_proto_key p" by auto
    obtain k c where kc: "p = (k, c)" by (cases p)
    with p TNode.prems have "plain c" by (auto simp: list_all_iff)
    moreover from p kc have "c \<in> Basic_BNFs.snds p" "p \<in> set ps" by simp_all
    ultimately have "no_proto_key c" using TNode.IH(2) by blast
    with q kc show "snd q" by simp
  qed
  with TNode.prems show ?case by (simp add: plain_node_def)
qed simp_all


section \<open>Fresh addresses and the members of a copy\<close>

lemma typeOf_frame:
  "frame h h' \<Longrightarrow> val_in {..<length h} v \<Longrightarrow> typeOf h' v = typeOf h v"
proof (cases v)
  case (VRef a)
  assume f: "frame h h'" and "val_in {..<length h} v"
  with VRef have a: "a < length h" by (simp add: val_in_def)
  with f have "unchanged (h ! a) (h' ! a)" "a < length h'" by (auto simp: frame_iff)
  then have "tag_of_kind (kind (h' ! a)) = tag_of_kind (kind (h ! a))"
    by (auto simp: unchanged_def intro: tag_same_slots)
  with a \<open>a < length h'\<close> VRef show ?thesis by (simp add: typeOf_def lookup_def)
qed (simp_all add: typeOf_def)

lemma copy_into_fresh: "copy_into rec a ret h = (Inr v, h') \<Longrightarrow> v = VRef (length h)"
  by (auto simp: copy_into_def Let_def split: prod.splits sum.splits)

lemma duplicateFunction_fresh: "duplicateFunction x h = (Inr v, h') \<Longrightarrow> v = VRef (length h)"
  by (auto simp: duplicateFunction_def fresh_def ill_typed_def
      split: option.splits kind.splits if_splits)

lemma duplicateError_fresh: "duplicateError x h = (Inr v, h') \<Longrightarrow> v = VRef (length h)"
  by (auto simp: duplicateError_def Let_def ill_typed_def
      split: val.splits sum.splits prod.splits)

lemma duplicateRegExp_fresh: "duplicateRegExp x h = (Inr v, h') \<Longrightarrow> v = VRef (length h)"
  by (auto simp: duplicateRegExp_def fresh_def ill_typed_def split: option.splits kind.splits)

lemma duplicateDate_fresh: "duplicateDate x h = (Inr v, h') \<Longrightarrow> v = VRef (length h)"
  by (auto simp: duplicateDate_def fresh_def ill_typed_def split: option.splits kind.splits)

lemma duplicateObject_fresh: "duplicateObject rec x h = (Inr v, h') \<Longrightarrow> v = VRef (length h)"
  by (auto simp: duplicateObject_def ill_typed_def dest: copy_into_fresh split: val.splits)

lemma duplicateArray_fresh: "duplicateArray rec x h = (Inr v, h') \<Longrightarrow> v = VRef (length h)"
  by (auto simp: duplicateArray_def ill_typed_def dest: copy_into_fresh split: val.splits)

lemma duplicateMapType_fresh: "duplicateMapType c x h = (Inr v, h') \<Longrightarrow> v = VRef (length h)"
  by (auto simp: duplicateMapType_def fresh_def ill_typed_def
      split: option.splits sum.splits strength.splits if_splits)

lemma duplicateSetType_fresh: "duplicateSetType c x h = (Inr v, h') \<Longrightarrow> v = VRef (length h)"
  by (auto simp: duplicateSetType_def fresh_def ill_typed_def
      split: option.splits sum.splits strength.splits if_splits)

lemma duplicatePromise_fresh: "duplicatePromise x h = (Inr v, h') \<Longrightarrow> v = VRef (length h)"
  by (auto simp: duplicatePromise_def Let_def ill_typed_def
      split: val.splits option.splits kind.splits)

lemma duplicateTypedArray_fresh:
  "duplicateTypedArray c rec x h = (Inr v, h') \<Longrightarrow> v = VRef (length h)"
  by (auto simp: duplicateTypedArray_def ill_typed_def dest: copy_into_fresh
      split: val.splits option.splits kind.splits)

lemma duplicateArrayBuffer_fresh: "duplicateArrayBuffer x h = (Inr v, h') \<Longrightarrow> v = VRef (length h)"
  by (auto simp: duplicateArrayBuffer_def fresh_def ill_typed_def split: val.splits sum.splits)

lemma duplicateDataView_fresh: "duplicateDataView x h = (Inr v, h') \<Longrightarrow> v = VRef (length h)"
  by (auto simp: duplicateDataView_def fresh_def ill_typed_def split: option.splits kind.splits)

lemmas strategy_fresh =
  duplicateFunction_fresh duplicateError_fresh duplicateRegExp_fresh duplicateDate_fresh
  duplicateObject_fresh duplicateArray_fresh duplicateMapType_fresh duplicateSetType_fresh
  duplicatePromise_fresh duplicateTypedArray_fresh duplicateArrayBuffer_fresh
  duplicateDataView_fresh

lemma duplicate_fresh:
  assumes run: "duplicate m y h = (Inr v, h')" and t: "typeOf h y \<notin> returned_tags"
  shows "v = VRef (length h)"
proof -
  from run have d: "case strategies (nested m) (typeOf h y) of
       None \<Rightarrow> False | Some f \<Rightarrow> f y h = (Inr v, h')"
    by (auto simp: duplicate_def table_nested dispatch_def split: option.splits)
  show ?thesis
    using d t
    by (cases "typeOf h y") (simp_all add: strategies_def returned_tags_def strategy_fresh)
qed


lemma copy_members:
  assumes wf: "wf_heap h" and a: "a < length h" and bk: "bookkeeping (kind ret) = None"
    and run: "copy_into (nested n) a ret h = (Inr r, h')"
  shows "r = VRef (length h) \<and> length h < length h' \<and> frame h h' \<and>
     (\<exists>vs. length vs = length (for_in h a) \<and>
        assigns (zip (for_in h a) vs) ret = Inr (h' ! length h) \<and>
        (\<forall>(k, v)\<in>set (zip (for_in h a) vs).
           \<exists>m hi hi'. n = Suc m \<and> frame h hi \<and> length h < length hi \<and>
             duplicate m (get h a k) hi = (Inr v, hi') \<and>
             (typeOf h (get h a k) \<notin> returned_tags \<longrightarrow> v = VRef (length hi))))"
proof -
  from copy_into_result [OF framing_nested wf frame_refl a bk run]
  obtain vs where r: "r = VRef (length h)" "length h < length h'" "frame h h'"
    and vs: "length vs = length (for_in h a)"
    "assigns (zip (for_in h a) vs) ret = Inr (h' ! length h)"
    and mb: "list_all2 (made_by (nested n) a (length h) (h @ [ret]) h') (for_in h a) vs"
    by auto
  have "\<exists>m hi hi'. n = Suc m \<and> frame h hi \<and> length h < length hi \<and>
             duplicate m (get h a k) hi = (Inr v, hi') \<and>
             (typeOf h (get h a k) \<notin> returned_tags \<longrightarrow> v = VRef (length hi))"
    if kv: "(k, v) \<in> set (zip (for_in h a) vs)" for k v
  proof -
    from mb kv have "made_by (nested n) a (length h) (h @ [ret]) h' k v"
      by (auto simp: list_all2_iff)
    then obtain hi hi' where fe: "frame_except (length h) (h @ [ret]) hi"
      and rn: "nested n (get hi a k) hi = (Inr v, hi')"
      unfolding made_by_def by blast
    from fe have fr: "frame h hi" by (rule frame_except_new)
    from fe have len: "length h < length hi" by (auto dest: frame_except_length)
    have g: "get hi a k = get h a k" using wf fr a by (rule get_frame)
    from rn obtain m where n: "n = Suc m" by (cases n) auto
    with rn g have d: "duplicate m (get h a k) hi = (Inr v, hi')" by simp
    have "typeOf hi (get h a k) = typeOf h (get h a k)"
      using fr base_get [OF wf a] by (rule typeOf_frame)
    with d have "typeOf h (get h a k) \<notin> returned_tags \<longrightarrow> v = VRef (length hi)"
      by (auto dest: duplicate_fresh)
    with n fr len d show ?thesis by blast
  qed
  with r vs show ?thesis by blast
qed

lemma own_member:
  assumes L: "L < length h'"
    and at: "h' ! L = \<lparr>kind = K, proto = PIntrinsic i, props = map own (zip ks vs)\<rparr>"
    and sl: "own_slot K k = None"
    and len: "length vs = length ks" and k: "k \<in> set ks"
  shows "(k, get h' L k) \<in> set (zip ks vs)"
proof -
  from k len obtain v where v: "map_of (zip ks vs) k = Some v"
    by (metis map_of_zip_is_Some not_Some_eq)
  have pr: "proto (h' ! L) = PIntrinsic i" by (simp add: at)
  have "get h' L k = v"
    unfolding get_own [OF L pr] using sl v by (simp add: get_def at map_of_own)
  with v show ?thesis by (auto dest: map_of_SomeD)
qed


lemma plain_deep_equal:
  assumes "\<And>d. snapshot d h' r = dup_tree (snapshot d h x)" and "plain_data h x"
  shows "deep_equal h x h' r"
  using assms by (simp add: deep_equal_def plain_data_def dup_tree_plain)


section \<open>Plain data is copied\<close>

lemma snapshot_complete_scalar: "complete (snapshot 0 hb x) \<Longrightarrow> \<not> is_ref x"
  by (cases x) simp_all

lemma duplicate_scalar: "\<not> is_ref x \<Longrightarrow> duplicate n x h = (Inr x, h)"
  by (cases x) (simp_all add: duplicate_def table_nested dispatch_def typeOf_def strategies_def
      identity_def)

lemma store_container:
  assumes d: "dst < length h" and k: "k \<noteq> Name ''__proto__''"
    and c: "kind (h ! dst) = KObject \<or> (\<exists>m. kind (h ! dst) = KArray m) \<and> k \<noteq> Name ''length''"
  shows "\<exists>ob'. store dst k v h = (Inr (), h[dst := ob']) \<and>
           (kind ob' = KObject \<and> kind (h ! dst) = KObject \<or>
            (\<exists>m. kind ob' = KArray m) \<and> (\<exists>m. kind (h ! dst) = KArray m))"
  using assms
  by (cases k) (auto simp: store_def lookup_def assign_def)

lemma copy_keys_succeeds:
  assumes wf: "wf_heap hb" and src: "src < length hb" and frm: "framing rec"
    and ok: "\<And>k hc. k \<in> set ks \<Longrightarrow> frame hb hc \<Longrightarrow> \<exists>v h1. rec (get hb src k) hc = (Inr v, h1)"
  shows "frame hb h \<Longrightarrow> length hb \<le> dst \<Longrightarrow> dst < length h \<Longrightarrow>
         Name ''__proto__'' \<notin> set ks \<Longrightarrow>
         kind (h ! dst) = KObject \<or> (\<exists>m. kind (h ! dst) = KArray m) \<and> Name ''length'' \<notin> set ks \<Longrightarrow>
         \<exists>h'. copy_keys rec src dst ks h = (Inr (), h')"
  using ok
proof (induction ks arbitrary: h)
  case Nil
  then show ?case by simp
next
  case (Cons k ks)
  note fr = \<open>frame hb h\<close>
  have g: "get h src k = get hb src k" using wf fr src by (rule get_frame)
  from Cons.prems(6) [of k h] fr obtain v h1 where rn: "rec (get hb src k) h = (Inr v, h1)"
    by auto
  have f1: "frame h h1" using frm rn by (rule framingD)
  have fb1: "frame hb h1" using fr f1 by (rule frame_trans)
  from f1 Cons.prems(3) have d1: "dst < length h1" and un: "unchanged (h ! dst) (h1 ! dst)"
    by (auto simp: frame_iff)
  have bk: "bookkeeping (kind (h ! dst)) = None" using Cons.prems(5) by auto
  have same: "h1 ! dst = h ! dst" using un bk by (rule unchanged_eq)
  have kc: "kind (h1 ! dst) = KObject \<or> (\<exists>m. kind (h1 ! dst) = KArray m) \<and> k \<noteq> Name ''length''"
    using Cons.prems(5) same by auto
  have kp: "k \<noteq> Name ''__proto__''" using Cons.prems(4) by auto
  from store_container [OF d1 kp kc, of v]
  obtain ob' where st: "store dst k v h1 = (Inr (), h1[dst := ob'])"
    and ko: "kind ob' = KObject \<and> kind (h1 ! dst) = KObject \<or>
            (\<exists>m. kind ob' = KArray m) \<and> (\<exists>m. kind (h1 ! dst) = KArray m)"
    by blast
  let ?h2 = "h1[dst := ob']"
  have fb2: "frame hb ?h2"
    using fb1 Cons.prems(2) by (auto simp: frame_iff)
  have d2: "dst < length ?h2" using d1 by simp
  have k2: "kind (?h2 ! dst) = KObject \<or>
      (\<exists>m. kind (?h2 ! dst) = KArray m) \<and> Name ''length'' \<notin> set ks"
    using ko d1 Cons.prems(5) same by auto
  have "\<exists>h'. copy_keys rec src dst ks ?h2 = (Inr (), h')"
    using fb2 Cons.prems(2) d2 _ k2
  proof (rule Cons.IH)
    show "Name ''__proto__'' \<notin> set ks" using Cons.prems(4) by simp
    show "\<exists>v h1. rec (get hb src k') hc = (Inr v, h1)" if "k' \<in> set ks" "frame hb hc" for k' hc
      using Cons.prems(6) [of k' hc] that by simp
  qed
  then show ?case by (simp add: g rn st)
qed


lemma plain_kind:
  "plain_node (map_kind f (erase K)) ks obs \<Longrightarrow>
   K = KObject \<or> (\<exists>m. K = KArray m \<and> Name ''length'' \<notin> set ks)"
  by (cases K) (auto simp: plain_node_def)

lemma plain_succeeds:
  assumes wf: "wf_heap hb"
  shows "frame hb h \<Longrightarrow> val_in {..<length hb} x \<Longrightarrow> plain (snapshot n hb x) \<Longrightarrow>
         complete (snapshot n hb x) \<Longrightarrow> \<exists>r h'. duplicate n x h = (Inr r, h')"
proof (induction n arbitrary: x h)
  case 0
  from 0(4) have "\<not> is_ref x" by (rule snapshot_complete_scalar)
  then show ?case by (simp add: duplicate_scalar)
next
  case (Suc n)
  show ?case
  proof (cases "is_ref x")
    case False
    then show ?thesis by (simp add: duplicate_scalar)
  next
    case True
    then obtain a where xa: "x = VRef a" by (cases x) auto
    with Suc.prems(2) have lt: "a < length hb" by (simp add: val_in_def)
    let ?ks = "for_in hb a"
    from Suc.prems(3) xa lt
    have pn: "plain_node (map_kind (snapshot n hb) (erase (kind (hb ! a)))) (canon ?ks)
        (map (\<lambda>k. snapshot n hb (get hb a k)) (observed (kind (hb ! a))))"
      and pc: "\<forall>k\<in>set ?ks. plain (snapshot n hb (get hb a k))"
      by (auto simp: comp_def list_all_iff set_canon)
    from Suc.prems(4) xa lt
    have cc: "\<forall>k\<in>set ?ks. complete (snapshot n hb (get hb a k))"
      by (auto simp: comp_def list_all_iff set_canon)
    from plain_kind [OF pn]
    have K: "kind (hb ! a) = KObject \<or> (\<exists>m. kind (hb ! a) = KArray m \<and> Name ''length'' \<notin> set ?ks)"
      by (simp add: set_canon)
    from pn have nk: "Name ''__proto__'' \<notin> set ?ks" by (simp add: plain_node_def set_canon)
    have bk: "bookkeeping (kind (hb ! a)) = None" using K by auto
    have fr: "frame hb h" by fact
    from fr lt have lth: "a < length h" and un: "unchanged (hb ! a) (h ! a)"
      by (auto simp: frame_iff)
    have same: "h ! a = hb ! a" using un bk by (rule unchanged_eq)
    have ok: "\<exists>v h1. duplicate n (get hb a k) hc = (Inr v, h1)"
      if "k \<in> set ?ks" "frame hb hc" for k hc
      using that(2) base_get [OF wf lt] _ _
    proof (rule Suc.IH)
      from that(1) pc show "plain (snapshot n hb (get hb a k))" by simp
      from that(1) cc show "complete (snapshot n hb (get hb a k))" by simp
    qed
    have loop: "\<exists>h'. copy_keys (duplicate n) a (length h) ?ks (h @ [ret]) = (Inr (), h')"
      if "kind ret = KObject \<or> (\<exists>m. kind ret = KArray m) \<and> Name ''length'' \<notin> set ?ks" for ret
      using wf lt framing_duplicate ok
    proof (rule copy_keys_succeeds)
      show "frame hb (h @ [ret])" using fr frame_append by (rule frame_trans)
      show "length hb \<le> length h" using fr by (rule frame_length)
      show "length h < length (h @ [ret])" by simp
      show "Name ''__proto__'' \<notin> set ?ks" by (rule nk)
      show "kind ((h @ [ret]) ! length h) = KObject \<or>
          (\<exists>m. kind ((h @ [ret]) ! length h) = KArray m) \<and> Name ''length'' \<notin> set ?ks"
        using that by simp
    qed
    have keys: "for_in (h @ [ret]) a = ?ks" for ret
      using wf _ lt by (rule for_in_frame) (rule frame_trans [OF fr frame_append])
    from K show ?thesis
    proof
      assume ko: "kind (hb ! a) = KObject"
      from loop [of "\<lparr>kind = KObject, proto = PIntrinsic (Proto OBJECT), props = []\<rparr>"]
      obtain h' where "copy_keys (duplicate n) a (length h) ?ks
          (h @ [\<lparr>kind = KObject, proto = PIntrinsic (Proto OBJECT), props = []\<rparr>]) = (Inr (), h')"
        by auto
      moreover have "duplicate (Suc n) x h = duplicateObject (duplicate n) x h"
        using xa lth same ko
        by (simp add: duplicate_def dispatch_def typeOf_def lookup_def strategies_def)
      ultimately show ?thesis
        using xa by (simp add: duplicateObject_def copy_into_def keys Let_def)
    next
      assume "\<exists>m. kind (hb ! a) = KArray m \<and> Name ''length'' \<notin> set ?ks"
      then obtain m where ka: "kind (hb ! a) = KArray m" and nl: "Name ''length'' \<notin> set ?ks"
        by blast
      from loop [of "\<lparr>kind = KArray 0, proto = PIntrinsic (Proto ARRAY), props = []\<rparr>"] nl
      obtain h' where "copy_keys (duplicate n) a (length h) ?ks
          (h @ [\<lparr>kind = KArray 0, proto = PIntrinsic (Proto ARRAY), props = []\<rparr>]) = (Inr (), h')"
        by auto
      moreover have "duplicate (Suc n) x h = duplicateArray (duplicate n) x h"
        using xa lth same ka
        by (simp add: duplicate_def dispatch_def typeOf_def lookup_def strategies_def)
      ultimately show ?thesis
        using xa by (simp add: duplicateArray_def copy_into_def keys Let_def)
    qed
  qed
qed


section \<open>Objects, arrays and effects\<close>


lemmas show_defs = for_in_def enum_keys_def shadow_keys_def canon_def get_def plain_node_def

lemma nested_plain: "plain_data nested_heap (VRef 0)"
  unfolding plain_data_def
proof
  fix d
  show "plain (snapshot d nested_heap (VRef 0))"
  proof (cases d)
    case 0
    then show ?thesis by simp
  next
    case d1: (Suc d1)
    show ?thesis
    proof (cases d1)
      case 0
      with d1 show ?thesis by (simp add: nested_heap_def show_defs)
    next
      case d2: (Suc d2)
      show ?thesis
      proof (cases d2)
        case 0
        with d1 d2 show ?thesis by (simp add: nested_heap_def show_defs)
      next
        case (Suc d3)
        with d1 d2 show ?thesis by (simp add: nested_heap_def show_defs)
      qed
    qed
  qed
qed

lemma nested_run:
  "duplicate 2 (VRef 0) nested_heap =
     (Inr (VRef 2),
      nested_heap @
      [\<lparr>kind = KObject, proto = PIntrinsic (Proto OBJECT),
        props = [(Name ''a'', VNum 1, True), (Name ''b'', VRef 3, True)]\<rparr>,
       \<lparr>kind = KObject, proto = PIntrinsic (Proto OBJECT),
        props = [(Name ''c'', VNum 2, True)]\<rparr>])"
  by (simp add: nested_heap_def run_defs eval_nat_numeral)

lemma nested_wf: "wf_heap nested_heap"
  by (simp add: nested_heap_def wf_defs)

lemma nested_no_proto_key: "no_proto_key (snapshot (Suc 2) nested_heap (VRef 0))"
  by (simp add: nested_heap_def show_defs eval_nat_numeral)

lemma nested_complete:
  "plain (snapshot 2 nested_heap (VRef 0))" "complete (snapshot 2 nested_heap (VRef 0))"
  by (simp_all add: nested_heap_def show_defs eval_nat_numeral)




lemma array_plain: "plain_data array_heap (VRef 0)"
  unfolding plain_data_def
proof
  fix d
  show "plain (snapshot d array_heap (VRef 0))"
  proof (cases d)
    case 0
    then show ?thesis by simp
  next
    case d1: (Suc d1)
    show ?thesis
    proof (cases d1)
      case 0
      with d1 show ?thesis by (simp add: array_heap_def show_defs)
    next
      case d2: (Suc d2)
      show ?thesis
      proof (cases d2)
        case 0
        with d1 d2 show ?thesis by (simp add: array_heap_def show_defs)
      next
        case (Suc d3)
        with d1 d2 show ?thesis by (simp add: array_heap_def show_defs)
      qed
    qed
  qed
qed

lemma array_run:
  "duplicate 2 (VRef 0) array_heap =
     (Inr (VRef 2),
      array_heap @
      [\<lparr>kind = KArray 2, proto = PIntrinsic (Proto ARRAY),
        props = [(Idx 0, VNum 1, True), (Idx 1, VRef 3, True)]\<rparr>,
       \<lparr>kind = KArray 2, proto = PIntrinsic (Proto ARRAY),
        props = [(Idx 0, VNum 2, True), (Idx 1, VNum 3, True)]\<rparr>])"
  by (simp add: array_heap_def run_defs eval_nat_numeral)

lemma array_wf: "wf_heap array_heap"
  by (simp add: array_heap_def wf_defs)

lemma array_no_proto_key: "no_proto_key (snapshot (Suc 2) array_heap (VRef 0))"
  by (simp add: array_heap_def show_defs eval_nat_numeral)

lemma array_complete:
  "plain (snapshot 2 array_heap (VRef 0))" "complete (snapshot 2 array_heap (VRef 0))"
  by (simp_all add: array_heap_def show_defs eval_nat_numeral)



lemma copy_stays:
  assumes wf: "wf_heap hb" and fr: "frame hb h" and x: "val_in {..<length hb} x"
    and np: "no_proto_key (snapshot (Suc n) hb x)"
    and run: "duplicate n x h = (Inr r, h')" and f2: "frame h' h2"
  shows "snapshot d h2 r = dup_tree (snapshot d hb x)"
proof -
  from contract_duplicate [OF wf, of n, unfolded contract_def, rule_format, OF fr x np run]
  obtain R where R: "R \<subseteq> {..<length hb} \<union> {length h..<length h'}" "closed_on R h'" "val_in R r"
    and sn: "\<And>d. snapshot d h' r = dup_tree (snapshot d hb x)"
    unfolding copies_to_def by blast
  have "length hb \<le> length h" using fr by (rule frame_length)
  moreover have "length h \<le> length h'"
    using framingD [OF framing_duplicate run] by (rule frame_length)
  ultimately have "R \<subseteq> {..<length h'}" using R(1) by auto
  with f2 have "\<forall>a\<in>R. unchanged (h' ! a) (h2 ! a)" by (auto simp: frame_iff)
  moreover have "length h' \<le> length h2" using f2 by (rule frame_length)
  ultimately have "snapshot d h2 r = snapshot d h' r"
    using R(2,3) by (intro snapshot_stable)
  with sn show ?thesis by simp
qed


lemma nested_again:
  "duplicate 2 (VRef 0) (snd (duplicate 2 (VRef 0) nested_heap)) =
     (Inr (VRef 4),
      snd (duplicate 2 (VRef 0) nested_heap) @
      [\<lparr>kind = KObject, proto = PIntrinsic (Proto OBJECT),
        props = [(Name ''a'', VNum 1, True), (Name ''b'', VRef 5, True)]\<rparr>,
       \<lparr>kind = KObject, proto = PIntrinsic (Proto OBJECT),
        props = [(Name ''c'', VNum 2, True)]\<rparr>])"
  unfolding nested_run by (simp add: nested_heap_def run_defs eval_nat_numeral)



end
